theory Spec2Isabelle
  imports Main
begin

section \<open>C values: machine integers, buffers and faults\<close>

text \<open>
  The sources are C for 64-bit Windows: \<open>int\<close> and \<open>long\<close> are 32-bit two's complement.
  A C \<open>int\<close> is modelled as a HOL \<open>int\<close>; every arithmetic operation of the source
  whose result may leave the range of \<open>int\<close> goes through \<open>int_add\<close> or \<open>int_mul\<close>,
  which report the undefined behaviour of signed overflow as the fault
  \<open>SignedOverflow\<close>. A buffer is a list; reading or writing outside it is the fault
  \<open>OutOfBounds\<close>. Writing to the \<open>NULL\<close> stream returned by a failed \<open>fopen\<close> is the
  fault \<open>NullStream\<close>. A fault stands for undefined behaviour or a crash: nothing is
  claimed about what the program does after one.

  The type \<open>float\<close> is not interpreted: the kernel is modelled over any type with a
  zero, an addition and a multiplication (the syntactic classes \<open>zero\<close>, \<open>plus\<close> and
  \<open>times\<close> carry no algebraic law, so nothing such as associativity is assumed).
\<close>

datatype fault = SignedOverflow | OutOfBounds | NullStream

definition INT_MAX :: int where
  "INT_MAX = 2147483647"

definition INT_MIN :: int where
  "INT_MIN = - 2147483648"

definition in_int :: "int \<Rightarrow> bool" where
  "in_int x \<longleftrightarrow> INT_MIN \<le> x \<and> x \<le> INT_MAX"

definition int_add :: "int \<Rightarrow> int \<Rightarrow> fault + int" where
  "int_add x y = (if in_int (x + y) then Inr (x + y) else Inl SignedOverflow)"

definition int_mul :: "int \<Rightarrow> int \<Rightarrow> fault + int" where
  "int_mul x y = (if in_int (x * y) then Inr (x * y) else Inl SignedOverflow)"

definition load :: "'a list \<Rightarrow> int \<Rightarrow> fault + 'a" where
  "load buf p = (if 0 \<le> p \<and> p < int (length buf) then Inr (buf ! nat p) else Inl OutOfBounds)"

definition store :: "'a list \<Rightarrow> int \<Rightarrow> 'a \<Rightarrow> fault + 'a list" where
  "store buf p v =
     (if 0 \<le> p \<and> p < int (length buf) then Inr (buf[nat p := v]) else Inl OutOfBounds)"

text \<open>Sequencing: a fault ends the computation.\<close>

definition on_ok :: "fault + 'a \<Rightarrow> ('a \<Rightarrow> fault + 'b) \<Rightarrow> fault + 'b" where
  "on_ok r f = (case r of Inl e \<Rightarrow> Inl e | Inr v \<Rightarrow> f v)"

section \<open>The multiplication kernel (matrix\_mult.c)\<close>

text \<open>
  The body of the innermost loop, \<open>acc += A[row + k] * B[k * n + j]\<close>: both index
  computations are \<open>int\<close> arithmetic, both reads are bounds-checked.
\<close>

definition k_body :: "'a::{zero,plus,times} list \<Rightarrow> 'a list \<Rightarrow> int \<Rightarrow> int \<Rightarrow> int \<Rightarrow> int \<Rightarrow> 'a
    \<Rightarrow> fault + 'a" where
  "k_body A B n row j k acc =
     on_ok (int_add row k) (\<lambda>p.
     on_ok (load A p) (\<lambda>a.
     on_ok (int_mul k n) (\<lambda>kn.
     on_ok (int_add kn j) (\<lambda>q.
     on_ok (load B q) (\<lambda>b.
       Inr (acc + a * b))))))"

text \<open>
  \<open>for (int k = 0; k < n; k++)\<close>. The increment cannot overflow: it runs only when
  \<open>k < n\<close>, and \<open>n\<close> is an \<open>int\<close>.
\<close>

function k_loop :: "'a::{zero,plus,times} list \<Rightarrow> 'a list \<Rightarrow> int \<Rightarrow> int \<Rightarrow> int \<Rightarrow> int \<Rightarrow> 'a
    \<Rightarrow> fault + 'a" where
  "k_loop A B n row j k acc =
     (if k < n then
        (case k_body A B n row j k acc of
           Inl e \<Rightarrow> Inl e
         | Inr acc' \<Rightarrow> k_loop A B n row j (k + 1) acc')
      else Inr acc)"
  by pat_completeness auto
termination
  by (relation "measure (\<lambda>(A, B, n, row, j, k, acc). nat (n - k))") auto

text \<open>
  \<open>for (int j = 0; j < n; j++)\<close>: \<open>float acc = 0.0f\<close>, the inner loop, then
  \<open>C[row + j] = acc\<close>.
\<close>

function j_loop :: "'a::{zero,plus,times} list \<Rightarrow> 'a list \<Rightarrow> 'a list \<Rightarrow> int \<Rightarrow> int \<Rightarrow> int
    \<Rightarrow> fault + 'a list" where
  "j_loop A B C n row j =
     (if j < n then
        (case on_ok (k_loop A B n row j 0 0) (\<lambda>acc.
              on_ok (int_add row j) (\<lambda>p. store C p acc)) of
           Inl e \<Rightarrow> Inl e
         | Inr C' \<Rightarrow> j_loop A B C' n row (j + 1))
      else Inr C)"
  by pat_completeness auto
termination
  by (relation "measure (\<lambda>(A, B, C, n, row, j). nat (n - j))") auto

text \<open>\<open>for (int i = 0; i < n; i++)\<close>: \<open>int row = i * n\<close>, then the loop over \<open>j\<close>.\<close>

function i_loop :: "'a::{zero,plus,times} list \<Rightarrow> 'a list \<Rightarrow> 'a list \<Rightarrow> int \<Rightarrow> int
    \<Rightarrow> fault + 'a list" where
  "i_loop A B C n i =
     (if i < n then
        (case on_ok (int_mul i n) (\<lambda>row. j_loop A B C n row 0) of
           Inl e \<Rightarrow> Inl e
         | Inr C' \<Rightarrow> i_loop A B C' n (i + 1))
      else Inr C)"
  by pat_completeness auto
termination
  by (relation "measure (\<lambda>(A, B, C, n, i). nat (n - i))") auto

text \<open>
  \<open>void matrix_multiplication(const float* A, const float* B, float* C, int n)\<close>.
  \<open>A\<close> and \<open>B\<close> are only read; the result is the new content of the buffer \<open>C\<close>.
  The three buffers are distinct lists: the caller does not alias them.
\<close>

definition matrix_multiplication :: "'a::{zero,plus,times} list \<Rightarrow> 'a list \<Rightarrow> 'a list \<Rightarrow> int
    \<Rightarrow> fault + 'a list" where
  "matrix_multiplication A B C n = i_loop A B C n 0"

text \<open>
  The specification's entry \<open>C[i,j]\<close>: the products \<open>A[i,k] * B[k,j]\<close> added to a
  scalar that starts at zero, for \<open>k = 0, 1, ..., n - 1\<close> in this order.
\<close>

definition dot :: "'a::{zero,plus,times} list \<Rightarrow> 'a list \<Rightarrow> int \<Rightarrow> int \<Rightarrow> int \<Rightarrow> 'a" where
  "dot A B n i j =
     foldl (\<lambda>acc k. acc + A ! nat (i * n + k) * B ! nat (k * n + j)) 0 [0..n - 1]"

text \<open>The accumulation of one output cell as the kernel reads it, from the row offset.\<close>

definition row_dot :: "'a::{zero,plus,times} list \<Rightarrow> 'a list \<Rightarrow> int \<Rightarrow> int \<Rightarrow> int \<Rightarrow> 'a" where
  "row_dot A B n row j =
     foldl (\<lambda>acc k. acc + A ! nat (row + k) * B ! nat (k * n + j)) 0 [0..n - 1]"

section \<open>The C library functions used by the harness\<close>

text \<open>
  \<open>strtol(p, NULL, 10)\<close> as the C standard describes it: leading white space is
  skipped, an optional sign is read, then the longest run of decimal digits; with no
  digit the result is 0, and a value outside \<open>long\<close> is clamped to \<open>LONG_MIN\<close> or
  \<open>LONG_MAX\<close>. On this platform \<open>long\<close> has the range of \<open>int\<close>, so the cast
  \<open>(int)\<close> of the source changes nothing. \<open>atoi\<close> of the platform's C runtime
  returns the same value.
\<close>

definition isspace :: "char \<Rightarrow> bool" where
  "isspace c \<longleftrightarrow> c \<in> set [CHR 0x20, CHR 0x09, CHR 0x0A, CHR 0x0B, CHR 0x0C, CHR 0x0D]"

definition isdigit :: "char \<Rightarrow> bool" where
  "isdigit c \<longleftrightarrow> (48::nat) \<le> of_char c \<and> of_char c \<le> (57::nat)"

definition digit_val :: "char \<Rightarrow> int" where
  "digit_val c = int (of_char c) - 48"

definition clamp_long :: "int \<Rightarrow> int" where
  "clamp_long v = max INT_MIN (min INT_MAX v)"

definition strtol10 :: "string \<Rightarrow> int" where
  "strtol10 s =
     (let s1 = dropWhile isspace s;
          neg = (s1 \<noteq> [] \<and> hd s1 = CHR ''-'');
          s2 = (if s1 \<noteq> [] \<and> (hd s1 = CHR ''-'' \<or> hd s1 = CHR ''+'') then tl s1 else s1);
          v = foldl (\<lambda>a c. 10 * a + digit_val c) 0 (takeWhile isdigit s2)
      in clamp_long (if neg then - v else v))"

definition atoi :: "string \<Rightarrow> int" where
  "atoi s = strtol10 s"

text \<open>\<open>strchr(p, c)\<close>: the suffix of \<open>p\<close> that starts at the first \<open>c\<close>, or \<open>NULL\<close>.\<close>

fun strchr :: "string \<Rightarrow> char \<Rightarrow> string option" where
  "strchr [] c = None"
| "strchr (x # xs) c = (if x = c then Some (x # xs) else strchr xs c)"

text \<open>The conversion \<open>%d\<close> of \<open>printf\<close>.\<close>

fun dec_digits :: "nat \<Rightarrow> string" where
  "dec_digits n =
     (if n < 10 then [char_of (48 + n)] else dec_digits (n div 10) @ [char_of (48 + n mod 10)])"

definition show_int :: "int \<Rightarrow> string" where
  "show_int i = (if i < 0 then CHR ''-'' # dec_digits (nat (- i)) else dec_digits (nat i))"

section \<open>The benchmark harness (benchmark.c)\<close>

subsection \<open>Configuration\<close>

record config =
  cfg_sizes :: "int list"
  cfg_runs :: int
  cfg_out :: string
  cfg_seed :: int

definition sizes_default :: "int list" where
  "sizes_default = [64, 128, 256, 512, 1024]"

text \<open>
  The loop over \<open>argv[1]\<close>:
  \<^verbatim>\<open>while (*p && nsizes < 64) {
    sizes[nsizes++] = (int)strtol(p, NULL, 10);
    p = strchr(p, ','); if (!p) break; ++p; }\<close>
  The list \<open>sizes\<close> holds the \<open>nsizes\<close> entries written so far.
\<close>

function parse_sizes :: "string \<Rightarrow> int list \<Rightarrow> int list" where
  "parse_sizes p sizes =
     (if p \<noteq> [] \<and> length sizes < 64 then
        (case strchr p (CHR '','') of
           None \<Rightarrow> sizes @ [strtol10 p]
         | Some q \<Rightarrow> parse_sizes (tl q) (sizes @ [strtol10 p]))
      else sizes)"
  by pat_completeness auto
termination
proof (relation "measure (\<lambda>(p, sizes). length p)")
  show "wf (measure (\<lambda>(p, sizes). length p))"
    by simp
next
  fix p :: string and sizes :: "int list" and q
  assume "p \<noteq> [] \<and> length sizes < 64" and q: "strchr p (CHR '','') = Some q"
  have "strchr s c = Some t \<Longrightarrow> t \<noteq> [] \<and> length t \<le> length s" for s t c
    by (induction s) (auto split: if_splits)
  from this[OF q] have "length (tl q) < length p"
    by (cases q) auto
  then show "((tl q, sizes @ [strtol10 p]), (p, sizes)) \<in> measure (\<lambda>(p, sizes). length p)"
    by simp
qed

text \<open>
  The first part of \<open>main\<close>: \<open>argv\<close> is the whole argument vector (\<open>argv[0]\<close> is the
  program name) and \<open>argc\<close> its length.
\<close>

definition configure :: "string list \<Rightarrow> config" where
  "configure argv =
     (let argc = length argv;
          parsed = (if argc > 1 \<and> argv ! 1 \<noteq> [] then parse_sizes (argv ! 1) [] else [])
      in \<lparr> cfg_sizes = (if parsed = [] then sizes_default else parsed),
           cfg_runs = (if argc > 2 then atoi (argv ! 2) else 3),
           cfg_out = (if argc > 3 then argv ! 3 else ''results_raw.csv''),
           cfg_seed = (if argc > 4 then atoi (argv ! 4) else 27) \<rparr>)"

text \<open>
  The specification's reading of the size argument: the text is split at every comma
  (an empty text has one empty token), and a last token that is empty is not a token.
\<close>

fun split_commas :: "string \<Rightarrow> string list" where
  "split_commas [] = [[]]"
| "split_commas (c # cs) =
     (if c = CHR '','' then [] # split_commas cs
      else (case split_commas cs of
              [] \<Rightarrow> [[c]]
            | t # ts \<Rightarrow> (c # t) # ts))"

definition size_tokens :: "string \<Rightarrow> string list" where
  "size_tokens s = (let ts = split_commas s in if last ts = [] then butlast ts else ts)"

subsection \<open>The environment and the state of the process\<close>

text \<open>
  What the harness takes from outside the repository is a parameter of the model:
  \<^item> \<open>rand_at seed k\<close> is the value of the \<open>k\<close>-th call of \<open>rand()\<close> after
    \<open>srand(seed)\<close> (calls are counted from 0);
  \<^item> \<open>unit_float r\<close> is \<open>(float)r / RAND_MAX\<close>;
  \<^item> \<open>heap_junk\<close> is the content of a cell that \<open>malloc\<close> returned and nothing wrote;
  \<^item> \<open>local_time_id\<close> is the text that \<open>run_id_str\<close> builds from the local time;
  \<^item> \<open>metric_text t\<close> is the text of the three measured fields
    (\<open>%.3f;%.1f;%.2f\<close> of the elapsed time, the CPU percentage and the peak memory)
    of the \<open>t\<close>-th kernel invocation of the process: clocks and floating point
    are not modelled;
  \<^item> \<open>can_append path\<close> tells whether \<open>fopen(path, "a")\<close> returns a stream;
  \<^item> \<open>malloc_ok k b\<close> tells whether the \<open>k\<close>-th call of \<open>malloc\<close> of the process
    (counted from 0), for \<open>b\<close> bytes, returns a buffer rather than \<open>NULL\<close>.

  One assumption: \<open>fopen(path, "r")\<close> returns a stream exactly when the file
  exists. The console output of \<open>printf\<close> is left out.
\<close>

record 'a env =
  rand_at :: "int \<Rightarrow> nat \<Rightarrow> int"
  unit_float :: "int \<Rightarrow> 'a"
  heap_junk :: "'a"
  local_time_id :: string
  metric_text :: "nat \<Rightarrow> string"
  can_append :: "string \<Rightarrow> bool"
  malloc_ok :: "nat \<Rightarrow> nat \<Rightarrow> bool"

text \<open>
  The state: the files, the process-global generator (its seed and the number of draws
  since \<open>srand\<close>), and three counters that only record what happened: the calls of
  \<open>malloc\<close>, of \<open>free\<close> and of the kernel.
\<close>

record world =
  files :: "string \<rightharpoonup> string"
  rng_seed :: int
  rng_pos :: nat
  mallocs :: nat
  frees :: nat
  kernel_calls :: nat

definition srand :: "int \<Rightarrow> world \<Rightarrow> world" where
  "srand seed w = w\<lparr>rng_seed := seed, rng_pos := 0\<rparr>"

definition rand :: "'a env \<Rightarrow> world \<Rightarrow> int \<times> world" where
  "rand env w = (rand_at env (rng_seed w) (rng_pos w), w\<lparr>rng_pos := rng_pos w + 1\<rparr>)"

subsection \<open>The output file\<close>

definition newline :: char where
  "newline = CHR 0x0A"

definition HEADER :: string where
  "HEADER = ''run_id;language;size;run_idx;time_ms;cpu_pct;peak_mib'' @ [newline]"

text \<open>
  \<open>f = fopen(path, "a"); fputs(text, f); fclose(f);\<close> The stream is not checked:
  when \<open>fopen\<close> fails, the write goes to \<open>NULL\<close>.
\<close>

definition fappend :: "'a env \<Rightarrow> string \<Rightarrow> string \<Rightarrow> world \<Rightarrow> fault + world" where
  "fappend env path txt w =
     (if can_append env path
      then Inr (w\<lparr>files := (files w)(path \<mapsto>
                  (case files w path of None \<Rightarrow> [] | Some old \<Rightarrow> old) @ txt)\<rparr>)
      else Inl NullStream)"

definition write_header_if_needed :: "'a env \<Rightarrow> string \<Rightarrow> world \<Rightarrow> fault + world" where
  "write_header_if_needed env path w =
     (case files w path of
        Some old \<Rightarrow> Inr w
      | None \<Rightarrow> fappend env path HEADER w)"

text \<open>The line that \<open>fprintf(f, "%s;%s;%d;%d;%.3f;%.1f;%.2f\\n", ...)\<close> writes.\<close>

definition csv_line :: "string \<Rightarrow> string \<Rightarrow> int \<Rightarrow> int \<Rightarrow> string \<Rightarrow> string" where
  "csv_line rid lang n r m =
     rid @ '';'' @ lang @ '';'' @ show_int n @ '';'' @ show_int r @ '';'' @ m @ [newline]"

subsection \<open>One matrix size\<close>

text \<open>
  \<open>malloc((size_t)n * (size_t)n * sizeof(float))\<close>: the product is computed in the
  64-bit unsigned type \<open>size_t\<close>; the buffer holds that many bytes, four to a cell.
\<close>

definition malloc_bytes :: "int \<Rightarrow> nat" where
  "malloc_bytes n = nat (((n mod 2 ^ 64) * (n mod 2 ^ 64) * 4) mod 2 ^ 64)"

definition malloc_floats :: "int \<Rightarrow> nat" where
  "malloc_floats n = nat (((n mod 2 ^ 64) * (n mod 2 ^ 64) * 4) mod 2 ^ 64 div 4)"

text \<open>
  \<open>malloc(b)\<close>, as the \<open>k\<close>-th allocation of the process: a buffer of \<open>b\<close> bytes whose
  cells nothing has written, or \<open>NULL\<close>. The source never tests the pointer it gets.
  \<open>NULL\<close> is the buffer with no cell: every access through it is the fault
  \<open>OutOfBounds\<close>, and a loop that runs no iteration does not touch it.
\<close>

definition malloc :: "'a env \<Rightarrow> nat \<Rightarrow> nat \<Rightarrow> 'a list" where
  "malloc env k b = (if malloc_ok env k b then replicate (b div 4) (heap_junk env) else [])"

text \<open>
  The body of the filling loop: \<open>A[i] = (float)rand() / RAND_MAX;\<close> and then
  \<open>B[i] = (float)rand() / RAND_MAX;\<close>.
\<close>

definition fill_body :: "'a env \<Rightarrow> int \<Rightarrow> 'a list \<Rightarrow> 'a list \<Rightarrow> world
    \<Rightarrow> fault + ('a list \<times> 'a list \<times> world)" where
  "fill_body env i A B w =
     (let (r1, w1) = rand env w in
      on_ok (store A i (unit_float env r1)) (\<lambda>A'.
        let (r2, w2) = rand env w1 in
        on_ok (store B i (unit_float env r2)) (\<lambda>B'. Inr (A', B', w2))))"

text \<open>
  \<open>for (int i = 0; i < n * n; i++)\<close>: the bound \<open>n * n\<close> is \<open>int\<close> arithmetic,
  evaluated at every test. The increment runs only below the bound.
\<close>

function fill_loop :: "'a env \<Rightarrow> int \<Rightarrow> int \<Rightarrow> 'a list \<Rightarrow> 'a list \<Rightarrow> world
    \<Rightarrow> fault + ('a list \<times> 'a list \<times> world)" where
  "fill_loop env n i A B w =
     (case int_mul n n of
        Inl e \<Rightarrow> Inl e
      | Inr nn \<Rightarrow>
          if i < nn then
            (case fill_body env i A B w of
               Inl e \<Rightarrow> Inl e
             | Inr (A', B', w') \<Rightarrow> fill_loop env n (i + 1) A' B' w')
          else Inr (A, B, w))"
  by pat_completeness auto
termination
  by (relation "measure (\<lambda>(env, n, i, A, B, w). nat (n * n - i))")
    (auto simp: int_mul_def split: if_splits)

text \<open>
  One measured run: the kernel is invoked on the buffers, and the record is appended
  to the output file; the samples of the clock, the CPU time and the memory around the
  invocation only read the environment. The loop is
  \<open>for (int r = 1; r <= runs; ++r)\<close>; its increment is \<open>int\<close> arithmetic and can
  overflow, when \<open>runs\<close> is \<open>INT_MAX\<close>.
\<close>

definition language :: string where
  "language = ''C''"

definition run_body :: "'a::{zero,plus,times} env \<Rightarrow> string \<Rightarrow> int \<Rightarrow> 'a list \<Rightarrow> 'a list \<Rightarrow> 'a list
    \<Rightarrow> int \<Rightarrow> world \<Rightarrow> fault + ('a list \<times> world)" where
  "run_body env out n A B C r w =
     on_ok (matrix_multiplication A B C n) (\<lambda>C'.
     on_ok (fappend env out
              (csv_line (local_time_id env) language n r (metric_text env (kernel_calls w)))
              (w\<lparr>kernel_calls := kernel_calls w + 1\<rparr>)) (\<lambda>w'.
       Inr (C', w')))"

function run_loop :: "'a::{zero,plus,times} env \<Rightarrow> string \<Rightarrow> int \<Rightarrow> 'a list \<Rightarrow> 'a list \<Rightarrow> 'a list
    \<Rightarrow> int \<Rightarrow> int \<Rightarrow> world \<Rightarrow> fault + world" where
  "run_loop env out n A B C runs r w =
     (if r \<le> runs then
        (case on_ok (run_body env out n A B C r w) (\<lambda>(C', w').
              on_ok (int_add r 1) (\<lambda>r'. Inr (C', w', r'))) of
           Inl e \<Rightarrow> Inl e
         | Inr (C', w', r') \<Rightarrow> run_loop env out n A B C' runs r' w')
      else Inr w)"
  by pat_completeness auto
termination
  by (relation "measure (\<lambda>(env, out, n, A, B, C, runs, r, w). nat (runs + 1 - r))")
    (auto simp: on_ok_def int_add_def split: sum.splits if_splits)

text \<open>
  The body of the loop over the sizes: three buffers are allocated (each allocation
  may fail), \<open>A\<close> and \<open>B\<close> are filled, the runs are measured, the buffers are freed.
\<close>

definition size_iter :: "'a::{zero,plus,times} env \<Rightarrow> string \<Rightarrow> int \<Rightarrow> int \<Rightarrow> world
    \<Rightarrow> fault + world" where
  "size_iter env out runs n w =
     (let A0 = malloc env (mallocs w) (malloc_bytes n);
          B0 = malloc env (mallocs w + 1) (malloc_bytes n);
          C0 = malloc env (mallocs w + 2) (malloc_bytes n);
          w0 = w\<lparr>mallocs := mallocs w + 3\<rparr>
      in on_ok (fill_loop env n 0 A0 B0 w0) (\<lambda>(A, B, w1).
         on_ok (run_loop env out n A B C0 runs 1 w1) (\<lambda>w2.
           Inr (w2\<lparr>frees := frees w2 + 3\<rparr>))))"

text \<open>\<open>for (int si = 0; si < nsizes; ++si)\<close> over the entries of \<open>sizes\<close>.\<close>

fun size_loop :: "'a::{zero,plus,times} env \<Rightarrow> string \<Rightarrow> int \<Rightarrow> int list \<Rightarrow> world
    \<Rightarrow> fault + world" where
  "size_loop env out runs [] w = Inr w"
| "size_loop env out runs (n # ns) w =
     (case size_iter env out runs n w of
        Inl e \<Rightarrow> Inl e
      | Inr w' \<Rightarrow> size_loop env out runs ns w')"

subsection \<open>The program\<close>

text \<open>
  The part of \<open>main\<close> after the configuration: the generator is seeded, the output
  file is prepared, the sizes are processed. The result is the exit status and the
  final state.
\<close>

definition sweep :: "'a::{zero,plus,times} env \<Rightarrow> config \<Rightarrow> world \<Rightarrow> fault + (int \<times> world)" where
  "sweep env cfg w =
     on_ok (write_header_if_needed env (cfg_out cfg) (srand (cfg_seed cfg) w)) (\<lambda>w1.
     on_ok (size_loop env (cfg_out cfg) (cfg_runs cfg) (cfg_sizes cfg) w1) (\<lambda>w2.
       Inr (0, w2)))"

definition main :: "'a::{zero,plus,times} env \<Rightarrow> string list \<Rightarrow> world \<Rightarrow> fault + (int \<times> world)" where
  "main env argv w = sweep env (configure argv) w"

text \<open>
  The order of the records the specification asks for: size-major, and within a size
  the run indices \<open>1, ..., runs\<close>.
\<close>

definition sweep_order :: "int list \<Rightarrow> int \<Rightarrow> (int \<times> int) list" where
  "sweep_order S runs = concat (map (\<lambda>n. map (\<lambda>r. (n, r)) [1..runs]) S)"

text \<open>The text of the records for a list of (size, run index) pairs, from invocation \<open>t0\<close> on.\<close>

definition records_text :: "'a env \<Rightarrow> nat \<Rightarrow> (int \<times> int) list \<Rightarrow> string" where
  "records_text env t0 ps =
     concat (map (\<lambda>(t, (n, r)). csv_line (local_time_id env) language n r (metric_text env (t0 + t)))
               (enumerate 0 ps))"

text \<open>The number of draws that filling the matrices of the sizes \<open>S\<close> takes.\<close>

definition draws_for :: "int list \<Rightarrow> nat" where
  "draws_for S = sum_list (map (\<lambda>n. 2 * nat (n * n)) S)"

text \<open>An environment and a state to run the model on.\<close>

definition demo_env :: "int env" where
  "demo_env = \<lparr> rand_at = (\<lambda>seed k. int k), unit_float = (\<lambda>r. r), heap_junk = - 1,
                local_time_id = ''30/10/09/15'', metric_text = (\<lambda>t. ''1.000;50.0;2.00''),
                can_append = (\<lambda>path. path \<noteq> []), malloc_ok = (\<lambda>k b. True) \<rparr>"

definition demo_world :: world where
  "demo_world = \<lparr> files = Map.empty, rng_seed = 1, rng_pos = 0, mallocs = 0, frees = 0,
                  kernel_calls = 0 \<rparr>"

text \<open>
  A type to run the kernel on that has a signed zero, as \<open>float\<close> has: a sign
  (\<open>True\<close> for minus) and a magnitude, here a natural number, so that no rounding
  occurs. Sums and products take their signs as IEEE 754 sets them in the default
  rounding mode: a product has the exclusive or of the signs, a sum of two numbers of
  the same sign keeps it, and an exact zero sum of two numbers of opposite signs is
  plus zero. \<open>0.0f\<close> is plus zero.
\<close>

datatype sfloat = SF bool nat

instantiation sfloat :: "{zero,plus,times}"
begin

definition zero_sfloat :: sfloat where
  "zero_sfloat = SF False 0"

fun plus_sfloat :: "sfloat \<Rightarrow> sfloat \<Rightarrow> sfloat" where
  "plus_sfloat (SF s a) (SF t b) =
     (if s = t then SF s (a + b)
      else if a = b then SF False 0
      else if b < a then SF s (a - b)
      else SF t (b - a))"

fun times_sfloat :: "sfloat \<Rightarrow> sfloat \<Rightarrow> sfloat" where
  "times_sfloat (SF s a) (SF t b) = SF (s \<noteq> t) (a * b)"

instance ..

end


text \<open>The fields of the state that a measured run leaves alone.\<close>

definition same_process :: "world \<Rightarrow> world \<Rightarrow> bool" where
  "same_process w w' \<longleftrightarrow> rng_seed w' = rng_seed w \<and> rng_pos w' = rng_pos w \<and>
     mallocs w' = mallocs w \<and> frees w' = frees w"

text \<open>The number of lines of a text: every line ends with a newline.\<close>

definition line_count :: "string \<Rightarrow> nat" where
  "line_count txt = length (filter (\<lambda>c. c = newline) txt)"

declare k_loop.simps [simp del] j_loop.simps [simp del] i_loop.simps [simp del]
declare fill_loop.simps [simp del] run_loop.simps [simp del] parse_sizes.simps [simp del]
declare dec_digits.simps [simp del]

section \<open>Properties of the kernel\<close>

subsection \<open>The three loops\<close>

text \<open>
  Each loop is described by what it does between two values of its counter, as long
  as every index stays an \<open>int\<close> and inside the buffers. The full loop is the case
  where the second value is \<open>n\<close>; the general case also leads to the place where an
  index computation overflows.
\<close>

lemma on_ok_Inr: "on_ok (Inr v) f = f v"
  by (simp add: on_ok_def)

lemma on_ok_Inl: "on_ok (Inl e) f = Inl e"
  by (simp add: on_ok_def)

lemma on_ok_Inr_iff: "on_ok r f = Inr y \<longleftrightarrow> (\<exists>v. r = Inr v \<and> f v = Inr y)"
  by (cases r) (simp_all add: on_ok_def)

lemma k_body_ok:
  assumes "0 \<le> row + k" "row + k \<le> INT_MAX" "row + k < int (length A)"
    and "0 \<le> k * n" "0 \<le> j" "k * n + j \<le> INT_MAX" "k * n + j < int (length B)"
  shows "k_body A B n row j k acc = Inr (acc + A ! nat (row + k) * B ! nat (k * n + j))"
proof -
  have a: "int_add row k = Inr (row + k)"
    using assms by (simp add: int_add_def in_int_def INT_MIN_def)
  have b: "load A (row + k) = Inr (A ! nat (row + k))"
    using assms by (simp add: load_def)
  have c: "int_mul k n = Inr (k * n)"
    using assms by (simp add: int_mul_def in_int_def INT_MIN_def)
  have d: "int_add (k * n) j = Inr (k * n + j)"
    using assms by (simp add: int_add_def in_int_def INT_MIN_def)
  have e: "load B (k * n + j) = Inr (B ! nat (k * n + j))"
    using assms by (simp add: load_def)
  show ?thesis
    by (simp add: k_body_def a b c d e on_ok_Inr)
qed

lemma k_loop_prefix:
  assumes "0 \<le> k" "k \<le> m" "m \<le> n" "0 \<le> row" "0 \<le> j"
    and "row + m \<le> INT_MAX + 1" "row + m \<le> int (length A)"
    and "k < m \<Longrightarrow> (m - 1) * n + j \<le> INT_MAX \<and> (m - 1) * n + j < int (length B)"
  shows "k_loop A B n row j k acc =
         k_loop A B n row j m
           (foldl (\<lambda>acc k. acc + A ! nat (row + k) * B ! nat (k * n + j)) acc [k..m - 1])"
  using assms
proof (induction A B n row j k acc rule: k_loop.induct)
  case (1 A B n row j k acc)
  show ?case
  proof (cases "k < m")
    case False
    with "1.prems" have "k = m" by simp
    then show ?thesis by simp
  next
    case True
    with "1.prems" have kn: "k < n" and n0: "0 \<le> n" by auto
    have le: "k * n \<le> (m - 1) * n"
      using True n0 by (intro mult_right_mono) auto
    have k0: "0 \<le> k * n"
      using "1.prems"(1) n0 by simp
    have b1: "k * n + j \<le> INT_MAX" "k * n + j < int (length B)"
      using "1.prems"(8)[OF True] le by linarith+
    have body: "k_body A B n row j k acc = Inr (acc + A ! nat (row + k) * B ! nat (k * n + j))"
      using "1.prems"(1-7) True k0 b1 by (intro k_body_ok) linarith+
    have IH: "k_loop A B n row j (k + 1) (acc + A ! nat (row + k) * B ! nat (k * n + j)) =
         k_loop A B n row j m
           (foldl (\<lambda>acc k. acc + A ! nat (row + k) * B ! nat (k * n + j))
              (acc + A ! nat (row + k) * B ! nat (k * n + j)) [k + 1..m - 1])"
      using "1.prems" True kn by (intro "1.IH"[OF kn body]) auto
    have up: "[k..m - 1] = k # [k + 1..m - 1]"
      using True by (simp add: upto_rec1)
    have "k_loop A B n row j k acc =
        k_loop A B n row j (k + 1) (acc + A ! nat (row + k) * B ! nat (k * n + j))"
      using kn body by (subst k_loop.simps) simp
    then show ?thesis
      by (simp only: IH up foldl_Cons)
  qed
qed

lemma store_ok:
  "0 \<le> p \<Longrightarrow> p < int (length C) \<Longrightarrow> store C p v = Inr (C[nat p := v])"
  by (simp add: store_def)

lemma j_loop_prefix:
  assumes "0 \<le> j" "j \<le> m" "m \<le> n" "0 \<le> row"
    and "row + n \<le> INT_MAX + 1" "row + n \<le> int (length A)" "row + m \<le> int (length C)"
    and "j < m \<Longrightarrow> (n - 1) * n + (m - 1) \<le> INT_MAX \<and> (n - 1) * n + (m - 1) < int (length B)"
  shows "\<exists>C'. length C' = length C \<and>
           (\<forall>p. C' ! p = (if nat (row + j) \<le> p \<and> p < nat (row + m)
                          then row_dot A B n row (int p - row) else C ! p)) \<and>
           j_loop A B C n row j = j_loop A B C' n row m"
  using assms
proof (induction A B C n row j rule: j_loop.induct)
  case (1 A B C n row j)
  show ?case
  proof (cases "j < m")
    case False
    with "1.prems" have "j = m" by simp
    then show ?thesis by auto
  next
    case True
    with "1.prems" have jn: "j < n" and n0: "0 \<le> n" by auto
    have bb: "(n - 1) * n + (m - 1) \<le> INT_MAX" "(n - 1) * n + (m - 1) < int (length B)"
      using "1.prems"(8)[OF True] by auto
    have kb: "(n - 1) * n + j \<le> INT_MAX \<and> (n - 1) * n + j < int (length B)"
      using bb True by linarith
    have "k_loop A B n row j 0 0 = k_loop A B n row j n (row_dot A B n row j)"
      unfolding row_dot_def using "1.prems"(1-7) n0 kb
      by (intro k_loop_prefix) auto
    then have kl: "k_loop A B n row j 0 0 = Inr (row_dot A B n row j)"
      by (subst (asm) (2) k_loop.simps) simp
    have ia: "int_add row j = Inr (row + j)"
      using "1.prems"(1-7) jn by (simp add: int_add_def in_int_def INT_MIN_def)
    have st: "store C (row + j) (row_dot A B n row j) = Inr (C[nat (row + j) := row_dot A B n row j])"
      using "1.prems"(1-7) True by (intro store_ok) linarith+
    define C1 where "C1 = C[nat (row + j) := row_dot A B n row j]"
    have step: "on_ok (k_loop A B n row j 0 0) (\<lambda>acc. on_ok (int_add row j) (\<lambda>p. store C p acc))
        = Inr C1"
      by (simp add: kl ia st on_ok_Inr C1_def)
    have unf: "j_loop A B C n row j = j_loop A B C1 n row (j + 1)"
      using jn step by (subst j_loop.simps) simp
    have len1: "length C1 = length C" by (simp add: C1_def)
    have "\<exists>C'. length C' = length C1 \<and>
           (\<forall>p. C' ! p = (if nat (row + (j + 1)) \<le> p \<and> p < nat (row + m)
                          then row_dot A B n row (int p - row) else C1 ! p)) \<and>
           j_loop A B C1 n row (j + 1) = j_loop A B C' n row m"
      using "1.prems"(1-7) True bb len1
      by (intro "1.IH"[OF jn step]) auto
    then obtain C' where C': "length C' = length C1"
        "\<forall>p. C' ! p = (if nat (row + (j + 1)) \<le> p \<and> p < nat (row + m)
                          then row_dot A B n row (int p - row) else C1 ! p)"
        "j_loop A B C1 n row (j + 1) = j_loop A B C' n row m"
      by blast
    have inb: "nat (row + j) < length C"
      using "1.prems"(1-7) True by linarith
    have cells: "C' ! p = (if nat (row + j) \<le> p \<and> p < nat (row + m)
                          then row_dot A B n row (int p - row) else C ! p)" for p
    proof (cases "p = nat (row + j)")
      case True
      have nx: "\<not> nat (row + (j + 1)) \<le> p"
        using True "1.prems"(1,4) by linarith
      have "C' ! p = C1 ! p" using C'(2) nx by simp
      also have "\<dots> = row_dot A B n row j"
        using True inb by (simp add: C1_def)
      finally have v: "C' ! p = row_dot A B n row j" .
      have jp: "int p - row = j"
        using True "1.prems"(1,4) by linarith
      have "p < nat (row + m)"
        using True \<open>j < m\<close> "1.prems"(1,4) by linarith
      then show ?thesis
        using True v jp by simp
    next
      case False
      have "nat (row + (j + 1)) = Suc (nat (row + j))"
        using "1.prems"(1,4) by linarith
      then show ?thesis
        using False C'(2) by (auto simp: C1_def)
    qed
    show ?thesis
      using C'(1,3) cells len1 unf by auto
  qed
qed

lemma dot_row_dot: "dot A B n i j = row_dot A B n (i * n) j"
  by (simp add: dot_def row_dot_def)

lemma div_mod_in_row:
  fixes i n p :: int
  assumes "i * n \<le> p" "p < i * n + n"
  shows "p div n = i" "p mod n = p - i * n"
proof -
  have n: "0 < n" using assms by linarith
  have "p = i * n + (p - i * n)" by simp
  moreover have "0 \<le> p - i * n" "p - i * n < n" using assms by auto
  ultimately show "p div n = i"
    by (metis add.commute div_pos_pos_trivial div_mult_self1 n add.right_neutral
        less_irrefl mult.commute)
  then show "p mod n = p - i * n"
    by (metis minus_mult_div_eq_mod mult.commute)
qed

lemma i_loop_total:
  assumes "0 \<le> i" "i \<le> n" "n * n \<le> INT_MAX"
    and "n * n \<le> int (length A)" "n * n \<le> int (length B)" "n * n \<le> int (length C)"
  shows "\<exists>R. i_loop A B C n i = Inr R \<and> length R = length C \<and>
           (\<forall>p. R ! p = (if nat (i * n) \<le> p \<and> p < nat (n * n)
                         then dot A B n (int p div n) (int p mod n) else C ! p))"
  using assms
proof (induction A B C n i rule: i_loop.induct)
  case (1 A B C n i)
  show ?case
  proof (cases "i < n")
    case False
    with "1.prems" have "i = n" by simp
    then show ?thesis
      by (subst i_loop.simps) auto
  next
    case True
    with "1.prems" have n0: "0 < n" by linarith
    have r0: "0 \<le> i * n" using "1.prems"(1) n0 by simp
    have "(i + 1) * n \<le> n * n"
      using True n0 by (intro mult_right_mono) auto
    then have r1: "i * n + n \<le> n * n" by (simp add: algebra_simps)
    have im: "int_mul i n = Inr (i * n)"
      using r0 r1 "1.prems"(3) n0 by (simp add: int_mul_def in_int_def INT_MIN_def)
    have last: "(n - 1) * n + (n - 1) < n * n"
      using n0 by (simp add: algebra_simps)
    have "\<exists>C'. length C' = length C \<and>
           (\<forall>p. C' ! p = (if nat (i * n + 0) \<le> p \<and> p < nat (i * n + n)
                          then row_dot A B n (i * n) (int p - i * n) else C ! p)) \<and>
           j_loop A B C n (i * n) 0 = j_loop A B C' n (i * n) n"
      using r0 r1 "1.prems"(3-6) n0 last
      by (intro j_loop_prefix) linarith+
    then obtain C1 where C1: "length C1 = length C"
        "\<And>p. C1 ! p = (if nat (i * n) \<le> p \<and> p < nat (i * n + n)
                          then row_dot A B n (i * n) (int p - i * n) else C ! p)"
        "j_loop A B C n (i * n) 0 = j_loop A B C1 n (i * n) n"
      by auto
    have jl: "j_loop A B C n (i * n) 0 = Inr C1"
      unfolding C1(3) by (subst j_loop.simps) simp
    have step: "on_ok (int_mul i n) (\<lambda>row. j_loop A B C n row 0) = Inr C1"
      by (simp add: im on_ok_Inr jl)
    have unf: "i_loop A B C n i = i_loop A B C1 n (i + 1)"
      using True step by (subst i_loop.simps) simp
    have "\<exists>R. i_loop A B C1 n (i + 1) = Inr R \<and> length R = length C1 \<and>
           (\<forall>p. R ! p = (if nat ((i + 1) * n) \<le> p \<and> p < nat (n * n)
                         then dot A B n (int p div n) (int p mod n) else C1 ! p))"
      using "1.prems" True C1(1) by (intro "1.IH"[OF True step]) auto
    then obtain R where R: "i_loop A B C1 n (i + 1) = Inr R" "length R = length C1"
        "\<And>p. R ! p = (if nat ((i + 1) * n) \<le> p \<and> p < nat (n * n)
                         then dot A B n (int p div n) (int p mod n) else C1 ! p)"
      by auto
    have cells: "R ! p = (if nat (i * n) \<le> p \<and> p < nat (n * n)
                         then dot A B n (int p div n) (int p mod n) else C ! p)" for p
    proof (cases "nat (i * n) \<le> p \<and> p < nat (i * n + n)")
      case True
      then have a: "i * n \<le> int p" "int p < i * n + n"
        using r0 by linarith+
      have b: "\<not> nat ((i + 1) * n) \<le> p"
        using a by (simp add: algebra_simps)
      have c: "p < nat (n * n)" using a r1 by linarith
      have "R ! p = C1 ! p" using R(3) b by simp
      also have "\<dots> = row_dot A B n (i * n) (int p - i * n)"
        using C1(2) True by simp
      also have "\<dots> = dot A B n (int p div n) (int p mod n)"
        using div_mod_in_row[OF a] by (simp add: dot_row_dot)
      finally show ?thesis using True c by simp
    next
      case False
      have e: "nat ((i + 1) * n) = nat (i * n + n)" by (simp add: algebra_simps)
      have "C1 ! p = C ! p" using C1(2)[of p] False by auto
      moreover have "nat (i * n) \<le> p \<and> p < nat (n * n) \<longleftrightarrow>
                     nat ((i + 1) * n) \<le> p \<and> p < nat (n * n)"
        using False r0 r1 n0 unfolding e by linarith
      ultimately show ?thesis using R(3) by simp
    qed
    show ?thesis
      using unf R(1,2) C1(1) cells by auto
  qed
qed

lemma kernel_total:
  assumes "0 \<le> n" "n * n \<le> INT_MAX"
    and "n * n \<le> int (length A)" "n * n \<le> int (length B)" "n * n \<le> int (length C)"
  shows "\<exists>R. matrix_multiplication A B C n = Inr R \<and> length R = length C \<and>
           (\<forall>p. R ! p = (if p < nat (n * n)
                         then dot A B n (int p div n) (int p mod n) else C ! p))"
  using i_loop_total[of 0 n A B C] assms by (simp add: matrix_multiplication_def)

lemma kernel_nonpositive: "n \<le> 0 \<Longrightarrow> matrix_multiplication A B C n = Inr C"
  by (simp add: matrix_multiplication_def i_loop.simps)

lemma kernel_ok:
  assumes "n * n \<le> INT_MAX"
    and "n * n \<le> int (length A)" "n * n \<le> int (length B)" "n * n \<le> int (length C)"
  shows "\<exists>R. matrix_multiplication A B C n = Inr R \<and> length R = length C"
proof (cases "0 \<le> n")
  case True
  then show ?thesis
    using kernel_total[OF True assms] by blast
next
  case False
  then show ?thesis
    by (simp add: kernel_nonpositive)
qed


text \<open>
  Claim C1, as amended. For every \<open>n\<close> with \<open>0 \<le> n\<close> and \<open>n * n \<le> INT_MAX\<close> (that is,
  \<open>n \<le> 46340\<close>) and buffers of at least \<open>n * n\<close> cells, \<open>matrix_multiplication\<close>
  returns normally, and the new content of \<open>C\<close> has, at offset \<open>i * n + j\<close> for all
  \<open>i, j\<close> in \<open>[0, n)\<close>, the value \<open>dot A B n i j\<close>: the products
  \<open>A[i * n + k] * B[k * n + j]\<close> added to one scalar that starts at zero, for
  \<open>k = 0, ..., n - 1\<close> in increasing order. The cells of \<open>C\<close> from offset \<open>n * n\<close> on
  keep their content.
\<close>

theorem matrix_multiplication_spec:
  assumes "0 \<le> n" "n * n \<le> INT_MAX"
    and "n * n \<le> int (length A)" "n * n \<le> int (length B)" "n * n \<le> int (length C)"
  shows "\<exists>R. matrix_multiplication A B C n = Inr R \<and> length R = length C \<and>
           (\<forall>i j. 0 \<le> i \<and> i < n \<and> 0 \<le> j \<and> j < n \<longrightarrow> R ! nat (i * n + j) = dot A B n i j) \<and>
           (\<forall>p. nat (n * n) \<le> p \<longrightarrow> R ! p = C ! p)"
proof -
  obtain R where R: "matrix_multiplication A B C n = Inr R" "length R = length C"
      "\<And>p. R ! p = (if p < nat (n * n)
                         then dot A B n (int p div n) (int p mod n) else C ! p)"
    using kernel_total[OF assms] by auto
  have "R ! nat (i * n + j) = dot A B n i j" if "0 \<le> i" "i < n" "0 \<le> j" "j < n" for i j
  proof -
    have p0: "0 \<le> i * n + j" using that assms(1) by simp
    have a: "i * n \<le> i * n + j" "i * n + j < i * n + n" using that by auto
    have "(i + 1) * n \<le> n * n"
      using that assms(1) by (intro mult_right_mono) auto
    then have "i * n + j < n * n" using that by (simp add: algebra_simps)
    then have "nat (i * n + j) < nat (n * n)" using p0 by linarith
    then show ?thesis
      using R(3)[of "nat (i * n + j)"] div_mod_in_row[OF a] p0 by simp
  qed
  then show ?thesis using R by auto
qed

text \<open>The amended claim on the matrices of the example in the header file.\<close>

theorem matrix_multiplication_spec_witness:
  "(0::int) \<le> 2 \<and> (2::int) * 2 \<le> INT_MAX \<and>
   (\<exists>R. matrix_multiplication [1, 2, 3, 4 :: int] [5, 6, 7, 8] [0, 0, 0, 0] 2 = Inr R \<and>
        length R = 4 \<and> R ! 0 = 19 \<and> R ! 1 = 22 \<and> R ! 2 = 43 \<and> R ! 3 = 50)"
proof -
  have "\<exists>R. matrix_multiplication [1, 2, 3, 4 :: int] [5, 6, 7, 8] [0, 0, 0, 0] 2 = Inr R \<and>
      length R = length [0, 0, 0, 0 :: int] \<and>
      (\<forall>i j. 0 \<le> i \<and> i < 2 \<and> 0 \<le> j \<and> j < 2 \<longrightarrow>
          R ! nat (i * 2 + j) = dot [1, 2, 3, 4] [5, 6, 7, 8] 2 i j) \<and>
      (\<forall>p. nat (2 * 2) \<le> p \<longrightarrow> R ! p = [0, 0, 0, 0] ! p)"
    by (rule matrix_multiplication_spec) (simp_all add: INT_MAX_def)
  then obtain R where R: "matrix_multiplication [1, 2, 3, 4 :: int] [5, 6, 7, 8] [0, 0, 0, 0] 2 = Inr R"
      "length R = 4"
      "\<And>i j. 0 \<le> i \<Longrightarrow> i < 2 \<Longrightarrow> 0 \<le> j \<Longrightarrow> j < 2 \<Longrightarrow>
          R ! nat (i * 2 + j) = dot [1, 2, 3, 4] [5, 6, 7, 8] 2 i j"
    by auto
  have d: "dot [1, 2, 3, 4 :: int] [5, 6, 7, 8] 2 0 0 = 19"
      "dot [1, 2, 3, 4 :: int] [5, 6, 7, 8] 2 0 1 = 22"
      "dot [1, 2, 3, 4 :: int] [5, 6, 7, 8] 2 1 0 = 43"
      "dot [1, 2, 3, 4 :: int] [5, 6, 7, 8] 2 1 1 = 50"
    by (simp_all add: dot_def upto_rec1)
  have "R ! 0 = 19" "R ! 1 = 22" "R ! 2 = 43" "R ! 3 = 50"
    using R(3)[of 0 0] R(3)[of 0 1] R(3)[of 1 0] R(3)[of 1 1]
    by (simp_all add: d nat_add_distrib numeral_2_eq_2 numeral_3_eq_3)
  then show ?thesis
    using R(1,2) by (simp add: INT_MAX_def)
qed

lemma k_body_overflow:
  assumes "0 \<le> row + k" "row + k \<le> INT_MAX" "row + k < int (length A)"
    and "0 \<le> k * n" "k * n \<le> INT_MAX" "INT_MAX < k * n + j"
  shows "k_body A B n row j k acc = Inl SignedOverflow"
proof -
  have a: "int_add row k = Inr (row + k)"
    using assms by (simp add: int_add_def in_int_def INT_MIN_def)
  have b: "load A (row + k) = Inr (A ! nat (row + k))"
    using assms by (simp add: load_def)
  have c: "int_mul k n = Inr (k * n)"
    using assms by (simp add: int_mul_def in_int_def INT_MIN_def)
  have d: "int_add (k * n) j = Inl SignedOverflow"
    using assms by (simp add: int_add_def in_int_def)
  show ?thesis
    by (simp add: k_body_def a b c d on_ok_Inr on_ok_Inl)
qed

lemma kernel_overflow_46341:
  assumes "length A = 2147488281" "length B = 2147488281" "length C = 2147488281"
  shows "matrix_multiplication A B C 46341 = Inl SignedOverflow"
proof -
  have "\<exists>C'. length C' = length C \<and>
           (\<forall>p. C' ! p = (if nat (0 + 0) \<le> p \<and> p < nat (0 + 41708)
                          then row_dot A B 46341 0 (int p - 0) else C ! p)) \<and>
           j_loop A B C 46341 0 0 = j_loop A B C' 46341 0 41708"
    by (rule j_loop_prefix) (simp_all add: assms INT_MAX_def)
  then obtain C' where C': "length C' = length C"
      "j_loop A B C 46341 0 0 = j_loop A B C' 46341 0 41708"
    by blast
  have kp: "k_loop A B 46341 0 41708 0 0 =
         k_loop A B 46341 0 41708 46340
           (foldl (\<lambda>acc k. acc + A ! nat (0 + k) * B ! nat (k * 46341 + 41708)) 0 [0..46340 - 1])"
    by (rule k_loop_prefix) (simp_all add: assms INT_MAX_def)
  have kb: "k_body A B 46341 0 41708 46340 acc = Inl SignedOverflow" for acc
    by (rule k_body_overflow) (simp_all add: assms INT_MAX_def)
  have "k_loop A B 46341 0 41708 46340 acc = Inl SignedOverflow" for acc
    by (subst k_loop.simps) (simp add: kb)
  then have kl: "k_loop A B 46341 0 41708 0 0 = Inl SignedOverflow"
    by (simp only: kp)
  have jl: "j_loop A B C' 46341 0 41708 = Inl SignedOverflow"
    by (subst j_loop.simps) (simp add: kl on_ok_Inl)
  have im: "int_mul 0 46341 = Inr 0"
    by (simp add: int_mul_def in_int_def INT_MIN_def INT_MAX_def)
  show ?thesis
    unfolding matrix_multiplication_def
    by (subst i_loop.simps) (simp add: im on_ok_Inr C'(2) jl)
qed

text \<open>
  The claim as stated, for every \<open>n \<ge> 0\<close>, fails at \<open>n = 46341\<close>, on matrices of
  \<open>46341 * 46341 = 2147488281\<close> cells: in the first row, at \<open>j = 41708\<close> and
  \<open>k = 46340\<close>, the index \<open>k * n + j\<close> is \<open>2147483648\<close>, one more than \<open>INT_MAX\<close>.
\<close>

theorem matrix_multiplication_spec_counterexample:
  "matrix_multiplication (replicate 2147488281 (1::int)) (replicate 2147488281 1)
     (replicate 2147488281 0) 46341 = Inl SignedOverflow"
  by (rule kernel_overflow_46341) (simp_all only: length_replicate)

text \<open>
  Claim C7, as amended. For \<open>n = 0\<close> the kernel returns normally and \<open>C\<close> is
  unchanged. For \<open>n = 1\<close> and buffers of at least one cell it returns normally, and
  the only cell written is \<open>C[0]\<close>, with the value \<open>0 + A[0] * B[0]\<close>: the
  accumulator starts at zero and the product is added to it.
\<close>

theorem kernel_boundary:
  fixes A B C :: "'a::{zero,plus,times} list"
  shows "matrix_multiplication A B C 0 = Inr C \<and>
     (A \<noteq> [] \<and> B \<noteq> [] \<and> C \<noteq> [] \<longrightarrow>
        matrix_multiplication A B C 1 = Inr (C[0 := 0 + A ! 0 * B ! 0]))"
proof -
  have z: "matrix_multiplication A B C 0 = Inr C"
    by (simp add: matrix_multiplication_def i_loop.simps)
  have one: "matrix_multiplication A B C 1 = Inr (C[0 := 0 + A ! 0 * B ! 0])"
    if ne: "A \<noteq> []" "B \<noteq> []" "C \<noteq> []"
  proof -
    have kb: "k_body A B 1 0 0 0 0 = Inr (0 + A ! 0 * B ! 0)"
      using ne by (simp add: k_body_def int_add_def int_mul_def in_int_def INT_MIN_def
          INT_MAX_def load_def on_ok_def)
    have k1: "k_loop A B 1 0 0 1 acc = Inr acc" for acc
      by (subst k_loop.simps) simp
    have kl: "k_loop A B 1 0 0 0 0 = Inr (0 + A ! 0 * B ! 0)"
      by (subst k_loop.simps) (simp add: kb k1)
    have j1: "j_loop A B C' 1 0 1 = Inr C'" for C'
      by (subst j_loop.simps) simp
    have jl: "j_loop A B C 1 0 0 = Inr (C[0 := 0 + A ! 0 * B ! 0])"
      using ne by (subst j_loop.simps)
        (simp add: kl j1 int_add_def in_int_def INT_MIN_def INT_MAX_def store_def on_ok_def)
    have i1: "i_loop A B C' 1 1 = Inr C'" for C'
      by (subst i_loop.simps) simp
    show ?thesis
      unfolding matrix_multiplication_def
      by (subst i_loop.simps)
        (simp add: jl i1 int_mul_def in_int_def INT_MIN_def INT_MAX_def on_ok_def)
  qed
  show ?thesis
    using z one by auto
qed

text \<open>
  The amended claim on integers, and on numbers with a signed zero: \<open>A[0] = -1\<close> and
  \<open>B[0] = +0\<close>, an output buffer of two cells.
\<close>

theorem kernel_boundary_witness:
  "matrix_multiplication [3 :: int] [5] [7, 9] 0 = Inr [7, 9] \<and>
   matrix_multiplication [3 :: int] [5] [7, 9] 1 = Inr [15, 9] \<and>
   matrix_multiplication [SF True 1] [SF False 0] [SF False 7, SF False 9] 1 =
     Inr [SF False 0, SF False 9]"
  using kernel_boundary[of "[3 :: int]" "[5]" "[7, 9]"]
    kernel_boundary[of "[SF True 1]" "[SF False 0]" "[SF False 7, SF False 9]"]
  by (simp add: zero_sfloat_def)

text \<open>
  The claim as stated, \<open>C[0] = A[0] * B[0]\<close> for \<open>n = 1\<close>, fails where the product is
  minus zero: for \<open>A[0] = -1\<close> and \<open>B[0] = +0\<close> the product is minus zero, and the cell
  holds plus zero, the sum of plus zero and minus zero.
\<close>

theorem kernel_boundary_counterexample:
  "matrix_multiplication [SF True 1] [SF False 0] [SF False 7] 1 = Inr [SF False 0] \<and>
   [SF True 1] ! 0 * [SF False 0] ! 0 = SF True 0"
  by code_simp

subsection \<open>The calls that return\<close>











section \<open>Properties of the configuration\<close>

subsection \<open>The size list\<close>

lemma takeWhile_stop: "\<not> P y \<Longrightarrow> takeWhile P (xs @ y # ys) = takeWhile P xs"
  by (induction xs) auto

lemma dropWhile_stop:
  "\<not> P y \<Longrightarrow> dropWhile P (xs @ y # ys) = dropWhile P xs @ y # ys"
  by (induction xs) auto

lemma comma_class: "\<not> isspace (CHR '','')" "\<not> isdigit (CHR '','')"
  by (simp_all add: isspace_def isdigit_def)

lemma strtol10_token: "strtol10 (t @ CHR '','' # rest) = strtol10 t"
proof -
  define s1 where "s1 = dropWhile isspace t"
  have e: "dropWhile isspace (t @ CHR '','' # rest) = s1 @ CHR '','' # rest"
    by (simp add: s1_def dropWhile_stop comma_class)
  show ?thesis
  proof (cases s1)
    case Nil
    then show ?thesis
      unfolding strtol10_def e s1_def[symmetric]
      by (simp add: comma_class)
  next
    case (Cons c u)
    have "takeWhile isdigit (u @ CHR '','' # rest) = takeWhile isdigit u"
      "takeWhile isdigit ((c # u) @ CHR '','' # rest) = takeWhile isdigit (c # u)"
      by (rule takeWhile_stop, rule comma_class)+
    then show ?thesis
      unfolding strtol10_def e s1_def[symmetric] Cons
      by (simp add: Let_def)
  qed
qed

lemma split_commas_nonempty: "split_commas s \<noteq> []"
  by (induction s) (auto split: list.splits)

lemma split_commas_plain: "CHR '','' \<notin> set t \<Longrightarrow> split_commas t = [t]"
  by (induction t) auto

lemma split_commas_first:
  "CHR '','' \<notin> set t \<Longrightarrow> split_commas (t @ CHR '','' # rest) = t # split_commas rest"
  by (induction t) auto

lemma strchr_None: "CHR '','' \<notin> set t \<Longrightarrow> strchr t (CHR '','') = None"
  by (induction t) auto

lemma strchr_first:
  "CHR '','' \<notin> set t \<Longrightarrow> strchr (t @ CHR '','' # rest) (CHR '','') = Some (CHR '','' # rest)"
  by (induction t) auto

lemma size_tokens_Nil: "size_tokens [] = []"
  by (simp add: size_tokens_def)

lemma size_tokens_plain: "t \<noteq> [] \<Longrightarrow> CHR '','' \<notin> set t \<Longrightarrow> size_tokens t = [t]"
  by (simp add: size_tokens_def split_commas_plain)

lemma size_tokens_first:
  "CHR '','' \<notin> set t \<Longrightarrow> size_tokens (t @ CHR '','' # rest) = t # size_tokens rest"
  using split_commas_nonempty[of rest]
  by (simp add: size_tokens_def split_commas_first Let_def)

lemma split_at_comma:
  "CHR '','' \<in> set p \<Longrightarrow> \<exists>t rest. p = t @ CHR '','' # rest \<and> CHR '','' \<notin> set t"
  by (metis split_list_first)

lemma parse_sizes_tokens:
  "length sizes \<le> 64 \<Longrightarrow>
   parse_sizes p sizes = take 64 (sizes @ map strtol10 (size_tokens p))"
proof (induction p sizes rule: parse_sizes.induct)
  case (1 p sizes)
  show ?case
  proof (cases "p \<noteq> [] \<and> length sizes < 64")
    case False
    then show ?thesis
      using "1.prems" by (subst parse_sizes.simps) (auto simp: size_tokens_Nil)
  next
    case True
    show ?thesis
    proof (cases "CHR '','' \<in> set p")
      case False
      then show ?thesis
        using True by (subst parse_sizes.simps) (simp add: strchr_None size_tokens_plain take_Cons')
    next
      case c: True
      then obtain t rest where p: "p = t @ CHR '','' # rest" "CHR '','' \<notin> set t"
        using split_at_comma by blast
      have sc: "strchr p (CHR '','') = Some (CHR '','' # rest)"
        using p by (simp add: strchr_first)
      have "parse_sizes p sizes = parse_sizes rest (sizes @ [strtol10 p])"
        using True by (subst parse_sizes.simps) (simp add: sc)
      also have "\<dots> = take 64 ((sizes @ [strtol10 p]) @ map strtol10 (size_tokens rest))"
        using "1.IH"[OF True sc] True by simp
      also have "\<dots> = take 64 (sizes @ map strtol10 (size_tokens p))"
        using p by (simp add: size_tokens_first strtol10_token)
      finally show ?thesis .
    qed
  qed
qed

lemma size_tokens_nonempty: "p \<noteq> [] \<Longrightarrow> size_tokens p \<noteq> []"
proof (cases "CHR '','' \<in> set p")
  case True
  then obtain t rest where "p = t @ CHR '','' # rest" "CHR '','' \<notin> set t"
    using split_at_comma by blast
  then show ?thesis by (simp add: size_tokens_first)
next
  case False
  assume "p \<noteq> []"
  then show ?thesis using False by (simp add: size_tokens_plain)
qed

lemma parsed_nonempty: "p \<noteq> [] \<Longrightarrow> parse_sizes p [] \<noteq> []"
  using size_tokens_nonempty[of p] by (simp add: parse_sizes_tokens)

lemma strtol10_no_number:
  assumes "t = [] \<or> (\<not> isspace (hd t) \<and> \<not> isdigit (hd t) \<and> hd t \<noteq> CHR ''-'' \<and> hd t \<noteq> CHR ''+'')"
  shows "strtol10 t = 0"
proof (cases t)
  case Nil
  then show ?thesis
    by (simp add: strtol10_def clamp_long_def INT_MIN_def INT_MAX_def)
next
  case (Cons c u)
  then show ?thesis
    using assms by (simp add: strtol10_def clamp_long_def INT_MIN_def INT_MAX_def)
qed

lemma strtol10_trailing:
  assumes "ds \<noteq> []" "\<forall>c \<in> set ds. isdigit c" "rest = [] \<or> \<not> isdigit (hd rest)"
  shows "strtol10 (ds @ rest) = strtol10 ds"
proof -
  have nd: "\<not> isspace c \<and> c \<noteq> CHR ''-'' \<and> c \<noteq> CHR ''+''" if "isdigit c" for c
    using that by (auto simp: isdigit_def isspace_def)
  have tw: "takeWhile isdigit (ds @ rest) = ds"
  proof (cases rest)
    case Nil
    then show ?thesis using assms(2) by simp
  next
    case (Cons y ys)
    then have "\<not> isdigit y" using assms(3) by simp
    then show ?thesis
      using assms(2) by (simp add: Cons takeWhile_stop)
  qed
  have tw2: "takeWhile isdigit ds = ds"
    using assms(2) by simp
  show ?thesis
  proof (cases ds)
    case Nil
    then show ?thesis using assms(1) by simp
  next
    case (Cons d ds')
    then have d: "isdigit d" using assms(2) by simp
    have dw: "dropWhile isspace (ds @ rest) = ds @ rest" "dropWhile isspace ds = ds"
      using nd[OF d] by (simp_all add: Cons)
    have hd: "hd (ds @ rest) = d" "hd ds = d" "ds @ rest \<noteq> []" "ds \<noteq> []"
      by (simp_all add: Cons)
    show ?thesis
      unfolding strtol10_def dw Let_def hd using nd[OF d]
      by (simp add: tw tw2)
  qed
qed

text \<open>
  Claim C5, as amended. A non-empty size argument is read from left to right as the
  tokens between its commas (an empty last token is not a token), at most 64 entries
  are taken, and each token contributes what \<open>strtol10\<close> reads from it: 0 if the token
  is empty or starts with a character that is neither a blank, a sign nor a digit, and
  the value of its leading digits if it starts with digits, whatever follows them.
  With no size argument, or an empty one, the list is \<open>{64, 128, 256, 512, 1024}\<close>.
\<close>

theorem configure_sizes:
  "cfg_sizes (configure argv) =
     (if 1 < length argv \<and> argv ! 1 \<noteq> []
      then take 64 (map strtol10 (size_tokens (argv ! 1)))
      else sizes_default) \<and>
   (t = [] \<or> (\<not> isspace (hd t) \<and> \<not> isdigit (hd t) \<and> hd t \<noteq> CHR ''-'' \<and> hd t \<noteq> CHR ''+'')
      \<longrightarrow> strtol10 t = 0) \<and>
   (ds \<noteq> [] \<and> (\<forall>c \<in> set ds. isdigit c) \<and> (rest = [] \<or> \<not> isdigit (hd rest))
      \<longrightarrow> strtol10 (ds @ rest) = strtol10 ds)"
proof -
  have "cfg_sizes (configure argv) =
     (if 1 < length argv \<and> argv ! 1 \<noteq> []
      then take 64 (map strtol10 (size_tokens (argv ! 1)))
      else sizes_default)"
  proof (cases "1 < length argv \<and> argv ! 1 \<noteq> []")
    case True
    then have "parse_sizes (argv ! 1) [] \<noteq> []"
      by (simp add: parsed_nonempty)
    then show ?thesis
      using True by (simp add: configure_def Let_def parse_sizes_tokens)
  next
    case False
    then show ?thesis
      by (auto simp: configure_def Let_def)
  qed
  then show ?thesis
    using strtol10_no_number[of t] strtol10_trailing[of ds rest] by blast
qed

theorem configure_sizes_witness:
  "cfg_sizes (configure [''benchmark'', ''4,x,8'']) = [4, 0, 8] \<and>
   cfg_sizes (configure [''benchmark'']) = [64, 128, 256, 512, 1024] \<and>
   strtol10 ''x'' = 0 \<and> strtol10 ''12ab'' = strtol10 ''12''"
proof -
  have t: "size_tokens ''4,x,8'' = [''4'', ''x'', ''8'']"
    by code_simp
  have v: "strtol10 ''4'' = 4" "strtol10 ''8'' = 8"
    by code_simp+
  have d: "\<forall>c \<in> set ''12''. isdigit c" "\<not> isdigit (hd ''ab'')" "\<not> isspace (hd ''x'')"
      "\<not> isdigit (hd ''x'')"
    by (simp_all add: isdigit_def isspace_def)
  show ?thesis
    using configure_sizes[of "[''benchmark'', ''4,x,8'']" "''x''" "''12''" "''ab''"]
      configure_sizes[of "[''benchmark'']" "''x''" "''12''" "''ab''"] d
    by (simp add: t v sizes_default_def)
qed

text \<open>
  The claim as stated fails on the token \<open>12ab\<close>: it is not a valid number, and it
  contributes the size 12, not 0.
\<close>

theorem configure_sizes_counterexample:
  "cfg_sizes (configure [''benchmark'', ''12ab'']) = [12]"
  by code_simp

text \<open>
  Claim C4, as amended. Each of the four parameters takes its default when it is
  omitted: sizes \<open>{64, 128, 256, 512, 1024}\<close>, run count 3, output path
  \<open>results_raw.csv\<close>, seed 27. An empty size list also gives the default sizes. An
  empty run count gives 0 runs, an empty output path gives the empty path, and an
  empty seed gives the seed 0.
\<close>

theorem configure_defaults:
  "(length argv \<le> 1 \<or> argv ! 1 = [] \<longrightarrow> cfg_sizes (configure argv) = [64, 128, 256, 512, 1024]) \<and>
   (length argv \<le> 2 \<longrightarrow> cfg_runs (configure argv) = 3) \<and>
   (length argv \<le> 3 \<longrightarrow> cfg_out (configure argv) = ''results_raw.csv'') \<and>
   (length argv \<le> 4 \<longrightarrow> cfg_seed (configure argv) = 27) \<and>
   (2 < length argv \<and> argv ! 2 = [] \<longrightarrow> cfg_runs (configure argv) = 0) \<and>
   (3 < length argv \<and> argv ! 3 = [] \<longrightarrow> cfg_out (configure argv) = []) \<and>
   (4 < length argv \<and> argv ! 4 = [] \<longrightarrow> cfg_seed (configure argv) = 0)"
proof -
  have z: "atoi [] = 0"
    by (simp add: atoi_def strtol10_def clamp_long_def INT_MIN_def INT_MAX_def)
  show ?thesis
    by (auto simp: configure_def Let_def sizes_default_def z)
qed

theorem configure_defaults_witness:
  "configure [''benchmark''] =
     \<lparr>cfg_sizes = [64, 128, 256, 512, 1024], cfg_runs = 3, cfg_out = ''results_raw.csv'',
      cfg_seed = 27\<rparr> \<and>
   configure [''benchmark'', [], [], [], []] =
     \<lparr>cfg_sizes = [64, 128, 256, 512, 1024], cfg_runs = 0, cfg_out = [], cfg_seed = 0\<rparr>"
  using configure_defaults[of "[''benchmark'']"]
    configure_defaults[of "[''benchmark'', [], [], [], []]"]
  by (simp add: config.equality)

text \<open>The claim as stated fails on an empty run count: the run count is 0, not 3.\<close>

theorem configure_defaults_counterexample:
  "cfg_runs (configure [''benchmark'', ''4'', []]) = 0 \<and>
   cfg_runs (configure [''benchmark'', ''4'', []]) \<noteq> 3"
  by code_simp

section \<open>Properties of the matrix fill\<close>

lemma malloc_floats_small:
  assumes "n * n \<le> INT_MAX"
  shows "malloc_floats n = nat (n * n)"
proof -
  have nn: "0 \<le> n * n" by simp
  have "((n mod 2 ^ 64) * (n mod 2 ^ 64) * 4) mod 2 ^ 64 =
        (((n mod 2 ^ 64) * (n mod 2 ^ 64)) mod 2 ^ 64 * 4) mod 2 ^ 64"
    by (rule mod_mult_left_eq[symmetric])
  also have "\<dots> = ((n * n) mod 2 ^ 64 * 4) mod 2 ^ 64"
    by (simp only: mod_mult_eq)
  also have "\<dots> = (n * n * 4) mod 2 ^ 64"
    by (rule mod_mult_left_eq)
  also have "\<dots> = n * n * 4"
    using assms nn by (intro mod_pos_pos_trivial) (simp_all add: INT_MAX_def)
  finally show ?thesis
    by (simp add: malloc_floats_def)
qed

lemma int_mul_square:
  assumes "n * n \<le> INT_MAX"
  shows "int_mul n n = Inr (n * n)"
proof -
  have "INT_MIN \<le> 0" by (simp add: INT_MIN_def)
  also have "0 \<le> n * n" by simp
  finally show ?thesis
    using assms by (simp add: int_mul_def in_int_def)
qed

lemma fill_body_ok:
  assumes "0 \<le> i" "i < int (length A)" "i < int (length B)"
  shows "fill_body env i A B w =
     Inr (A[nat i := unit_float env (rand_at env (rng_seed w) (rng_pos w))],
          B[nat i := unit_float env (rand_at env (rng_seed w) (rng_pos w + 1))],
          w\<lparr>rng_pos := rng_pos w + 2\<rparr>)"
  using assms by (simp add: fill_body_def rand_def store_def on_ok_def)

lemma fill_loop_total:
  assumes "0 \<le> i" "i \<le> n * n" "n * n \<le> INT_MAX"
    and "n * n \<le> int (length A)" "n * n \<le> int (length B)"
  shows "\<exists>A' B'. fill_loop env n i A B w =
              Inr (A', B', w\<lparr>rng_pos := rng_pos w + 2 * nat (n * n - i)\<rparr>) \<and>
           length A' = length A \<and> length B' = length B \<and>
           (\<forall>p. A' ! p = (if nat i \<le> p \<and> p < nat (n * n)
                then unit_float env (rand_at env (rng_seed w) (rng_pos w + 2 * (p - nat i)))
                else A ! p)) \<and>
           (\<forall>p. B' ! p = (if nat i \<le> p \<and> p < nat (n * n)
                then unit_float env (rand_at env (rng_seed w) (rng_pos w + 2 * (p - nat i) + 1))
                else B ! p))"
  using assms
proof (induction env n i A B w rule: fill_loop.induct)
  case (1 env n i A B w)
  have im: "int_mul n n = Inr (n * n)"
    using "1.prems"(3) by (rule int_mul_square)
  show ?case
  proof (cases "i < n * n")
    case False
    with "1.prems" have "i = n * n" by simp
    then show ?thesis
      by (subst fill_loop.simps) (auto simp: im)
  next
    case True
    define A1 where "A1 = A[nat i := unit_float env (rand_at env (rng_seed w) (rng_pos w))]"
    define B1 where "B1 = B[nat i := unit_float env (rand_at env (rng_seed w) (rng_pos w + 1))]"
    define w1 where "w1 = w\<lparr>rng_pos := rng_pos w + 2\<rparr>"
    have body: "fill_body env i A B w = Inr (A1, B1, w1)"
      unfolding A1_def B1_def w1_def using "1.prems" True by (intro fill_body_ok) linarith+
    have unf: "fill_loop env n i A B w = fill_loop env n (i + 1) A1 B1 w1"
      using True by (subst fill_loop.simps) (simp add: im body)
    have "\<exists>A' B'. fill_loop env n (i + 1) A1 B1 w1 =
              Inr (A', B', w1\<lparr>rng_pos := rng_pos w1 + 2 * nat (n * n - (i + 1))\<rparr>) \<and>
           length A' = length A1 \<and> length B' = length B1 \<and>
           (\<forall>p. A' ! p = (if nat (i + 1) \<le> p \<and> p < nat (n * n)
                then unit_float env (rand_at env (rng_seed w1) (rng_pos w1 + 2 * (p - nat (i + 1))))
                else A1 ! p)) \<and>
           (\<forall>p. B' ! p = (if nat (i + 1) \<le> p \<and> p < nat (n * n)
                then unit_float env (rand_at env (rng_seed w1) (rng_pos w1 + 2 * (p - nat (i + 1)) + 1))
                else B1 ! p))"
      using "1.prems" True
      by (intro "1.IH"[OF im True body refl refl]) (simp_all add: A1_def B1_def)
    then obtain A' B' where R: "fill_loop env n (i + 1) A1 B1 w1 =
              Inr (A', B', w1\<lparr>rng_pos := rng_pos w1 + 2 * nat (n * n - (i + 1))\<rparr>)"
        "length A' = length A1" "length B' = length B1"
        "\<And>p. A' ! p = (if nat (i + 1) \<le> p \<and> p < nat (n * n)
                then unit_float env (rand_at env (rng_seed w1) (rng_pos w1 + 2 * (p - nat (i + 1))))
                else A1 ! p)"
        "\<And>p. B' ! p = (if nat (i + 1) \<le> p \<and> p < nat (n * n)
                then unit_float env (rand_at env (rng_seed w1) (rng_pos w1 + 2 * (p - nat (i + 1)) + 1))
                else B1 ! p)"
      by blast
    have sc: "nat (n * n - i) = Suc (nat (n * n - (i + 1)))"
      using True by linarith
    have wf: "w1\<lparr>rng_pos := rng_pos w1 + 2 * nat (n * n - (i + 1))\<rparr> =
              w\<lparr>rng_pos := rng_pos w + 2 * nat (n * n - i)\<rparr>"
      by (simp add: w1_def sc)
    have si: "nat (i + 1) = Suc (nat i)"
      using "1.prems"(1) by linarith
    have ib: "nat i < length A" "nat i < length B" "nat i < nat (n * n)"
      using "1.prems" True by linarith+
    have cA: "A' ! p = (if nat i \<le> p \<and> p < nat (n * n)
                then unit_float env (rand_at env (rng_seed w) (rng_pos w + 2 * (p - nat i)))
                else A ! p)" for p
    proof (cases "p = nat i")
      case True
      then show ?thesis using R(4)[of p] ib by (simp add: si A1_def)
    next
      case False
      show ?thesis
      proof (cases "nat (i + 1) \<le> p \<and> p < nat (n * n)")
        case True
        have sp: "p - nat i = Suc (p - Suc (nat i))"
          using True si by linarith
        have e: "rng_pos w1 + 2 * (p - nat (i + 1)) = rng_pos w + 2 * (p - nat i)"
          by (simp add: w1_def si sp)
        have "A' ! p = unit_float env (rand_at env (rng_seed w1) (rng_pos w1 + 2 * (p - nat (i + 1))))"
          using R(4)[of p] True by simp
        also have "\<dots> = unit_float env (rand_at env (rng_seed w) (rng_pos w + 2 * (p - nat i)))"
          unfolding e by (simp add: w1_def)
        finally show ?thesis
          using True si by simp
      next
        case F2: False
        have "A' ! p = A1 ! p"
          using R(4)[of p] F2 by auto
        also have "\<dots> = A ! p"
          using False by (simp add: A1_def)
        finally show ?thesis
          using F2 False si by auto
      qed
    qed
    have cB: "B' ! p = (if nat i \<le> p \<and> p < nat (n * n)
                then unit_float env (rand_at env (rng_seed w) (rng_pos w + 2 * (p - nat i) + 1))
                else B ! p)" for p
    proof (cases "p = nat i")
      case True
      then show ?thesis using R(5)[of p] ib by (simp add: si B1_def)
    next
      case False
      show ?thesis
      proof (cases "nat (i + 1) \<le> p \<and> p < nat (n * n)")
        case True
        have sp: "p - nat i = Suc (p - Suc (nat i))"
          using True si by linarith
        have e: "rng_pos w1 + 2 * (p - nat (i + 1)) + 1 = rng_pos w + 2 * (p - nat i) + 1"
          by (simp add: w1_def si sp)
        have "B' ! p = unit_float env (rand_at env (rng_seed w1) (rng_pos w1 + 2 * (p - nat (i + 1)) + 1))"
          using R(5)[of p] True by simp
        also have "\<dots> = unit_float env (rand_at env (rng_seed w) (rng_pos w + 2 * (p - nat i) + 1))"
          unfolding e by (simp add: w1_def)
        finally show ?thesis
          using True si by simp
      next
        case F2: False
        have "B' ! p = B1 ! p"
          using R(5)[of p] F2 by auto
        also have "\<dots> = B ! p"
          using False by (simp add: B1_def)
        finally show ?thesis
          using F2 False si by auto
      qed
    qed
    have "fill_loop env n i A B w = Inr (A', B', w\<lparr>rng_pos := rng_pos w + 2 * nat (n * n - i)\<rparr>)"
      using unf R(1) wf by simp
    moreover have "length A' = length A" "length B' = length B"
      using R(2,3) by (simp_all add: A1_def B1_def)
    ultimately show ?thesis
      using cA cB by blast
  qed
qed

text \<open>
  Claim C2, as amended. For a size \<open>n\<close> with \<open>n * n \<le> INT_MAX\<close>, the fill of the two
  freshly allocated buffers returns normally after \<open>2 * n * n\<close> draws, and the draws
  alternate between the two matrices: counting from the draw the fill starts at, draw
  \<open>2 * k\<close> goes to \<open>A[k]\<close> and draw \<open>2 * k + 1\<close> goes to \<open>B[k]\<close>, for every
  \<open>k < n * n\<close>.
\<close>

theorem fill_order:
  assumes "n * n \<le> INT_MAX"
  shows "\<exists>A B. fill_loop env n 0 (replicate (malloc_floats n) (heap_junk env))
                 (replicate (malloc_floats n) (heap_junk env)) w =
               Inr (A, B, w\<lparr>rng_pos := rng_pos w + 2 * nat (n * n)\<rparr>) \<and>
     length A = nat (n * n) \<and> length B = nat (n * n) \<and>
     (\<forall>k < nat (n * n).
        A ! k = unit_float env (rand_at env (rng_seed w) (rng_pos w + 2 * k)) \<and>
        B ! k = unit_float env (rand_at env (rng_seed w) (rng_pos w + 2 * k + 1)))"
proof -
  define buf where "buf = replicate (malloc_floats n) (heap_junk env)"
  have len: "length buf = nat (n * n)"
    by (simp add: buf_def malloc_floats_small[OF assms])
  then have li: "n * n \<le> int (length buf)" by simp
  have z: "(0::int) \<le> 0" "0 \<le> n * n" by simp_all
  from fill_loop_total[OF z assms li li, of env w]
  obtain A B where f: "fill_loop env n 0 buf buf w =
        Inr (A, B, w\<lparr>rng_pos := rng_pos w + 2 * nat (n * n - 0)\<rparr>)"
      "length A = length buf" "length B = length buf"
      "\<And>p. A ! p = (if nat 0 \<le> p \<and> p < nat (n * n)
                then unit_float env (rand_at env (rng_seed w) (rng_pos w + 2 * (p - nat 0)))
                else buf ! p)"
      "\<And>p. B ! p = (if nat 0 \<le> p \<and> p < nat (n * n)
                then unit_float env (rand_at env (rng_seed w) (rng_pos w + 2 * (p - nat 0) + 1))
                else buf ! p)"
    by blast
  show ?thesis
    unfolding buf_def[symmetric]
    using f(1,2,3) len by (intro exI[of _ A] exI[of _ B]) (simp add: f(4,5))
qed

theorem fill_order_witness:
  "(2::int) * 2 \<le> INT_MAX \<and>
   (\<exists>A B. fill_loop demo_env 2 0 (replicate (malloc_floats 2) (heap_junk demo_env))
                 (replicate (malloc_floats 2) (heap_junk demo_env)) demo_world =
               Inr (A, B, demo_world\<lparr>rng_pos := 8\<rparr>) \<and>
     A ! 0 = 0 \<and> B ! 0 = 1 \<and> A ! 1 = 2 \<and> B ! 1 = 3 \<and> A ! 3 = 6 \<and> B ! 3 = 7)"
proof -
  have h: "(2::int) * 2 \<le> INT_MAX" by (simp add: INT_MAX_def)
  from fill_order[OF h, of demo_env demo_world]
  obtain A B where f: "fill_loop demo_env 2 0 (replicate (malloc_floats 2) (heap_junk demo_env))
                 (replicate (malloc_floats 2) (heap_junk demo_env)) demo_world =
               Inr (A, B, demo_world\<lparr>rng_pos := rng_pos demo_world + 2 * nat (2 * 2)\<rparr>)"
     "\<And>k. k < nat (2 * 2) \<Longrightarrow>
        A ! k = unit_float demo_env (rand_at demo_env (rng_seed demo_world) (rng_pos demo_world + 2 * k)) \<and>
        B ! k = unit_float demo_env (rand_at demo_env (rng_seed demo_world) (rng_pos demo_world + 2 * k + 1))"
    by blast
  have p: "rng_pos demo_world + 2 * nat (2 * 2) = 8"
    by (simp add: demo_world_def)
  show ?thesis
    using h f(1) f(2)[of 0] f(2)[of 1] f(2)[of 3] unfolding p
    by (simp add: demo_env_def demo_world_def)
qed

text \<open>
  The claim as stated (the first \<open>n * n\<close> draws go to \<open>A\<close>, the next \<open>n * n\<close> to \<open>B\<close>)
  fails for \<open>n = 2\<close>. Here the \<open>k\<close>-th draw has the value \<open>k\<close>: \<open>A\<close> holds the draws
  0, 2, 4, 6 and \<open>B\<close> the draws 1, 3, 5, 7.
\<close>

theorem fill_order_counterexample:
  "fill_loop demo_env 2 0 (replicate (malloc_floats 2) (heap_junk demo_env))
      (replicate (malloc_floats 2) (heap_junk demo_env)) demo_world =
   Inr ([0, 2, 4, 6], [1, 3, 5, 7], demo_world\<lparr>rng_pos := 8\<rparr>)"
proof -
  have m: "malloc_floats 2 = 4"
    by (simp add: malloc_floats_def)
  have im: "int_mul 2 2 = Inr 4"
    by (simp add: int_mul_def in_int_def INT_MIN_def INT_MAX_def)
  have r: "replicate 4 x = [x, x, x, x]" for x :: int
    by (simp add: numeral_eq_Suc)
  show ?thesis
    unfolding m r
    apply (subst fill_loop.simps, simp add: im fill_body_def rand_def store_def on_ok_def demo_env_def demo_world_def)+
    done
qed

section \<open>Properties of the sweep\<close>

subsection \<open>What a sweep that returns has done\<close>

lemma records_text_Nil: "records_text env t0 [] = []"
  by (simp add: records_text_def)

lemma records_text_Cons:
  "records_text env t0 ((n, r) # ps) =
     csv_line (local_time_id env) language n r (metric_text env t0) @ records_text env (Suc t0) ps"
proof -
  have "enumerate 0 ((n, r) # ps) = (0, (n, r)) # map (\<lambda>(t, p). (Suc t, p)) (enumerate 0 ps)"
    by (simp add: enumerate_Suc_eq split_def apfst_def map_prod_def)
  then show ?thesis
    by (simp add: records_text_def o_def split_def)
qed

lemma records_text_append:
  "records_text env t0 (ps @ qs) = records_text env t0 ps @ records_text env (t0 + length ps) qs"
proof (induction ps arbitrary: t0)
  case Nil
  then show ?case by (simp add: records_text_Nil)
next
  case (Cons a ps)
  obtain n r where a: "a = (n, r)" by (cases a)
  show ?case
    by (simp add: a records_text_Cons Cons.IH)
qed

lemma fill_body_world:
  "fill_body env i A B w = Inr (A', B', w') \<Longrightarrow> w' = w\<lparr>rng_pos := rng_pos w + 2\<rparr>"
  by (auto simp: fill_body_def rand_def on_ok_Inr_iff)

lemma fill_loop_frame:
  "fill_loop env n i A B w = Inr (A', B', w') \<Longrightarrow>
   files w' = files w \<and> kernel_calls w' = kernel_calls w"
proof (induction env n i A B w rule: fill_loop.induct)
  case (1 env n i A B w)
  from "1.prems" obtain nn where nn: "int_mul n n = Inr nn"
    by (subst (asm) fill_loop.simps) (auto split: sum.splits)
  show ?case
  proof (cases "i < nn")
    case False
    then show ?thesis
      using "1.prems" nn by (subst (asm) fill_loop.simps) simp
  next
    case True
    from "1.prems" obtain A1 B1 w1 where b: "fill_body env i A B w = Inr (A1, B1, w1)"
      and r: "fill_loop env n (i + 1) A1 B1 w1 = Inr (A', B', w')"
      using nn True by (subst (asm) fill_loop.simps) (auto split: sum.splits)
    have "files w' = files w1 \<and> kernel_calls w' = kernel_calls w1"
      using "1.IH"[OF nn True b refl refl r] .
    then show ?thesis
      using fill_body_world[OF b] by simp
  qed
qed

lemma fappend_Inr:
  "fappend env out txt w = Inr w' \<Longrightarrow>
   w' = w\<lparr>files := (files w)(out \<mapsto> (case files w out of None \<Rightarrow> [] | Some old \<Rightarrow> old) @ txt)\<rparr>"
  by (auto simp: fappend_def split: if_splits)

lemma run_body_world:
  assumes "run_body env out n A B C r w = Inr (C', w')" "files w out = Some old"
  shows "w' = w\<lparr>kernel_calls := kernel_calls w + 1,
               files := (files w)(out \<mapsto> old @
                 csv_line (local_time_id env) language n r (metric_text env (kernel_calls w)))\<rparr>"
proof -
  from assms(1) obtain w1 where
    "fappend env out (csv_line (local_time_id env) language n r (metric_text env (kernel_calls w)))
       (w\<lparr>kernel_calls := kernel_calls w + 1\<rparr>) = Inr w1" "w' = w1"
    by (auto simp: run_body_def on_ok_Inr_iff)
  then show ?thesis
    using fappend_Inr[of env out _ "w\<lparr>kernel_calls := kernel_calls w + 1\<rparr>" w1] assms(2)
    by simp
qed

lemma run_loop_partial:
  "run_loop env out n A B C runs r w = Inr w' \<Longrightarrow> files w out = Some old \<Longrightarrow>
   files w' = (files w)(out \<mapsto> old @ records_text env (kernel_calls w) (map (Pair n) [r..runs])) \<and>
   kernel_calls w' = kernel_calls w + length [r..runs]"
proof (induction env out n A B C runs r w arbitrary: old rule: run_loop.induct)
  case (1 env out n A B C runs r w)
  show ?case
  proof (cases "r \<le> runs")
    case False
    then have "w' = w"
      using "1.prems"(1) by (subst (asm) run_loop.simps) simp
    moreover have "(files w)(out \<mapsto> old) = files w"
      using "1.prems"(2) by (rule map_upd_triv)
    ultimately show ?thesis
      using False by (simp add: records_text_Nil)
  next
    case True
    from "1.prems"(1) obtain C1 w1 r1 where
      s: "on_ok (run_body env out n A B C r w) (\<lambda>(C', w').
              on_ok (int_add r 1) (\<lambda>r'. Inr (C', w', r'))) = Inr (C1, w1, r1)"
      and rest: "run_loop env out n A B C1 runs r1 w1 = Inr w'"
      using True by (subst (asm) run_loop.simps) (auto split: sum.splits)
    from s have b: "run_body env out n A B C r w = Inr (C1, w1)" and r1: "r1 = r + 1"
      by (auto simp: on_ok_Inr_iff int_add_def split: if_splits)
    define line where
      "line = csv_line (local_time_id env) language n r (metric_text env (kernel_calls w))"
    have w1: "w1 = w\<lparr>kernel_calls := kernel_calls w + 1, files := (files w)(out \<mapsto> old @ line)\<rparr>"
      unfolding line_def using run_body_world[OF b "1.prems"(2)] .
    have f1: "files w1 out = Some (old @ line)"
      by (simp add: w1)
    have IH: "files w' = (files w1)(out \<mapsto> (old @ line) @
                 records_text env (kernel_calls w1) (map (Pair n) [r1..runs])) \<and>
              kernel_calls w' = kernel_calls w1 + length [r1..runs]"
      using "1.IH"[OF True s refl refl rest f1] .
    have up: "[r..runs] = r # [r1..runs]"
      using True r1 by (simp add: upto_rec1)
    show ?thesis
      using IH by (simp add: up w1 records_text_Cons line_def)
  qed
qed

lemma upto_length: "length [1..runs] = nat runs"
  by simp

lemma size_iter_partial:
  assumes "size_iter env out runs n w = Inr w'" "files w out = Some old"
  shows "files w' = (files w)(out \<mapsto> old @ records_text env (kernel_calls w) (map (Pair n) [1..runs])) \<and>
         kernel_calls w' = kernel_calls w + nat runs"
proof -
  define w0 where "w0 = w\<lparr>mallocs := mallocs w + 3\<rparr>"
  from assms(1) obtain A0 B0 C0 A B w1 w2 where
    f: "fill_loop env n 0 A0 B0 w0 = Inr (A, B, w1)"
    and r: "run_loop env out n A B C0 runs 1 w1 = Inr w2"
    and w': "w' = w2\<lparr>frees := frees w2 + 3\<rparr>"
    by (auto simp: size_iter_def Let_def on_ok_Inr_iff w0_def)
  have a: "files w1 = files w" "kernel_calls w1 = kernel_calls w"
    using fill_loop_frame[OF f] by (simp_all add: w0_def)
  have "files w1 out = Some old"
    using a assms(2) by simp
  from run_loop_partial[OF r this] show ?thesis
    by (simp add: w' a)
qed

lemma sweep_order_Nil: "sweep_order [] runs = []"
  by (simp add: sweep_order_def)

lemma sweep_order_Cons: "sweep_order (n # ns) runs = map (Pair n) [1..runs] @ sweep_order ns runs"
  by (simp add: sweep_order_def)


lemma sweep_order_idle: "runs \<le> 0 \<Longrightarrow> sweep_order S runs = []"
  by (simp add: sweep_order_def)

lemma size_loop_partial:
  "size_loop env out runs S w = Inr w' \<Longrightarrow> files w out = Some old \<Longrightarrow>
   files w' = (files w)(out \<mapsto> old @ records_text env (kernel_calls w) (sweep_order S runs)) \<and>
   kernel_calls w' = kernel_calls w + length S * nat runs"
proof (induction S arbitrary: w old)
  case Nil
  have "(files w)(out \<mapsto> old) = files w"
    using Nil(2) by (rule map_upd_triv)
  then show ?case
    using Nil(1) by (simp add: sweep_order_Nil records_text_Nil)
next
  case (Cons n ns)
  from Cons.prems(1) obtain w1 where i: "size_iter env out runs n w = Inr w1"
    and l: "size_loop env out runs ns w1 = Inr w'"
    by (auto split: sum.splits)
  have a: "files w1 = (files w)(out \<mapsto> old @ records_text env (kernel_calls w) (map (Pair n) [1..runs]))"
      "kernel_calls w1 = kernel_calls w + nat runs"
    using size_iter_partial[OF i Cons.prems(2)] by simp_all
  have "files w1 out = Some (old @ records_text env (kernel_calls w) (map (Pair n) [1..runs]))"
    by (simp add: a)
  from Cons.IH[OF l this]
  have b: "files w' = (files w1)(out \<mapsto>
               (old @ records_text env (kernel_calls w) (map (Pair n) [1..runs])) @
               records_text env (kernel_calls w1) (sweep_order ns runs))"
      "kernel_calls w' = kernel_calls w1 + length ns * nat runs"
    by blast+
  have "files w' = (files w)(out \<mapsto> old @ records_text env (kernel_calls w) (sweep_order (n # ns) runs))"
    unfolding b(1) a sweep_order_Cons records_text_append
    by (simp only: fun_upd_upd append_assoc length_map upto_length)
  then show ?case
    using b(2) a(2) by simp
qed

lemma write_header_cases:
  assumes "write_header_if_needed env out w = Inr w1"
  shows "files w1 = (files w)(out \<mapsto> (case files w out of None \<Rightarrow> HEADER | Some old \<Rightarrow> old)) \<and>
         kernel_calls w1 = kernel_calls w"
proof (cases "files w out")
  case None
  then have "fappend env out HEADER w = Inr w1"
    using assms by (simp add: write_header_if_needed_def)
  from fappend_Inr[OF this] show ?thesis
    using None by simp
next
  case (Some old)
  then have "w1 = w"
    using assms by (simp add: write_header_if_needed_def)
  moreover have "(files w)(out \<mapsto> old) = files w"
    using Some by (rule map_upd_triv)
  ultimately show ?thesis
    using Some by simp
qed

lemma sweep_partial:
  assumes "sweep env cfg w = Inr (st, w')"
  shows "st = 0 \<and>
     files w' = (files w)(cfg_out cfg \<mapsto>
        (case files w (cfg_out cfg) of None \<Rightarrow> HEADER | Some old \<Rightarrow> old) @
        records_text env (kernel_calls w) (sweep_order (cfg_sizes cfg) (cfg_runs cfg))) \<and>
     kernel_calls w' = kernel_calls w + length (cfg_sizes cfg) * nat (cfg_runs cfg)"
proof -
  define base where "base = (case files w (cfg_out cfg) of None \<Rightarrow> HEADER | Some old \<Rightarrow> old)"
  from assms obtain w1 where
    h: "write_header_if_needed env (cfg_out cfg) (srand (cfg_seed cfg) w) = Inr w1"
    and l: "size_loop env (cfg_out cfg) (cfg_runs cfg) (cfg_sizes cfg) w1 = Inr w'"
    and st: "st = 0"
    by (auto simp: sweep_def on_ok_Inr_iff)
  have a: "files w1 = (files w)(cfg_out cfg \<mapsto> base)" "kernel_calls w1 = kernel_calls w"
    using write_header_cases[OF h] by (simp_all add: srand_def base_def)
  have "files w1 (cfg_out cfg) = Some base"
    by (simp add: a)
  from size_loop_partial[OF l this]
  have b: "files w' = (files w1)(cfg_out cfg \<mapsto> base @
               records_text env (kernel_calls w1) (sweep_order (cfg_sizes cfg) (cfg_runs cfg)))"
      "kernel_calls w' = kernel_calls w1 + length (cfg_sizes cfg) * nat (cfg_runs cfg)"
    by blast+
  have "files w' = (files w)(cfg_out cfg \<mapsto> base @
               records_text env (kernel_calls w) (sweep_order (cfg_sizes cfg) (cfg_runs cfg)))"
    unfolding b(1) a by (simp only: fun_upd_upd)
  then show ?thesis
    using st b(2) a(2) by (simp add: base_def)
qed

subsection \<open>When a sweep returns\<close>

lemma run_loop_total:
  assumes "n * n \<le> INT_MAX"
    and "n * n \<le> int (length A)" "n * n \<le> int (length B)" "n * n \<le> int (length C)"
    and "runs < INT_MAX" "1 \<le> r" "1 \<le> runs \<longrightarrow> can_append env out"
  shows "\<exists>w'. run_loop env out n A B C runs r w = Inr w' \<and> same_process w w'"
  using assms
proof (induction env out n A B C runs r w rule: run_loop.induct)
  case (1 env out n A B C runs r w)
  show ?case
  proof (cases "r \<le> runs")
    case False
    then show ?thesis
      by (subst run_loop.simps) (simp add: same_process_def)
  next
    case True
    obtain R where R: "matrix_multiplication A B C n = Inr R" "length R = length C"
      using kernel_ok[OF "1.prems"(1-4)] by blast
    have ca: "can_append env out"
      using True "1.prems"(6,7) by simp
    obtain w1 where b: "run_body env out n A B C r w = Inr (R, w1)" and p1: "same_process w w1"
      using ca by (simp add: run_body_def R(1) on_ok_Inr fappend_def same_process_def)
    have ia: "int_add r 1 = Inr (r + 1)"
      using True "1.prems"(5,6) by (simp add: int_add_def in_int_def INT_MIN_def INT_MAX_def)
    have s: "on_ok (run_body env out n A B C r w) (\<lambda>(C', w').
              on_ok (int_add r 1) (\<lambda>r'. Inr (C', w', r'))) = Inr (R, w1, r + 1)"
      by (simp add: b ia on_ok_Inr)
    have unf: "run_loop env out n A B C runs r w = run_loop env out n A B R runs (r + 1) w1"
      using True by (subst run_loop.simps) (simp add: s)
    have "\<exists>w'. run_loop env out n A B R runs (r + 1) w1 = Inr w' \<and> same_process w1 w'"
      using "1.prems" R(2)
      by (intro "1.IH"[OF True s refl refl]) simp_all
    then show ?thesis
      using p1 unfolding unf by (auto simp: same_process_def)
  qed
qed

lemma malloc_buffer:
  assumes "n * n \<le> INT_MAX" "malloc_ok env k (malloc_bytes n)"
  shows "malloc env k (malloc_bytes n) = replicate (malloc_floats n) (heap_junk env)"
proof -
  have "malloc_bytes n div 4 = malloc_floats n"
    by (simp add: malloc_bytes_def malloc_floats_def nat_div_distrib)
  then show ?thesis
    using assms(2) by (simp add: malloc_def)
qed

lemma size_iter_total:
  assumes "n * n \<le> INT_MAX" "runs < INT_MAX" "1 \<le> runs \<longrightarrow> can_append env out"
    and "\<forall>k. malloc_ok env k (malloc_bytes n)"
  shows "\<exists>w'. size_iter env out runs n w = Inr w' \<and>
     rng_seed w' = rng_seed w \<and> rng_pos w' = rng_pos w + 2 * nat (n * n) \<and>
     mallocs w' = mallocs w + 3 \<and> frees w' = frees w + 3"
proof -
  define w0 where "w0 = w\<lparr>mallocs := mallocs w + 3\<rparr>"
  define buf where "buf = replicate (malloc_floats n) (heap_junk env)"
  have len: "int (length buf) = n * n"
    by (simp add: buf_def malloc_floats_small[OF assms(1)])
  define w1 where "w1 = w0\<lparr>rng_pos := rng_pos w0 + 2 * nat (n * n - 0)\<rparr>"
  obtain A B where f: "fill_loop env n 0 buf buf w0 = Inr (A, B, w1)"
      "length A = length buf" "length B = length buf"
    using fill_loop_total[of 0 n buf buf env w0] assms(1) len unfolding w1_def by auto
  obtain w2 where r: "run_loop env out n A B buf runs 1 w1 = Inr w2" and p: "same_process w1 w2"
    using run_loop_total[of n A B buf runs 1 env out w1] assms(1-3) f(2,3) len by auto
  have m: "malloc env k (malloc_bytes n) = buf" for k
    unfolding buf_def using assms(1,4) by (intro malloc_buffer) simp_all
  have "size_iter env out runs n w =
      on_ok (fill_loop env n 0 buf buf w0) (\<lambda>(A, B, w1).
         on_ok (run_loop env out n A B buf runs 1 w1) (\<lambda>w2.
           Inr (w2\<lparr>frees := frees w2 + 3\<rparr>)))"
    by (simp add: size_iter_def Let_def m w0_def)
  also have "\<dots> = Inr (w2\<lparr>frees := frees w2 + 3\<rparr>)"
    unfolding f(1) on_ok_Inr by (simp add: r on_ok_Inr)
  finally show ?thesis
    using p by (simp add: same_process_def w1_def w0_def)
qed

lemma size_loop_total:
  assumes "\<forall>n \<in> set S. n * n \<le> INT_MAX \<and> (\<forall>k. malloc_ok env k (malloc_bytes n))"
    and "runs < INT_MAX" "1 \<le> runs \<longrightarrow> can_append env out"
  shows "\<exists>w'. size_loop env out runs S w = Inr w' \<and>
     rng_seed w' = rng_seed w \<and> rng_pos w' = rng_pos w + draws_for S \<and>
     mallocs w' = mallocs w + 3 * length S \<and> frees w' = frees w + 3 * length S"
  using assms(1)
proof (induction S arbitrary: w)
  case Nil
  then show ?case by (simp add: draws_for_def)
next
  case (Cons n ns)
  obtain w1 where i: "size_iter env out runs n w = Inr w1"
      "rng_seed w1 = rng_seed w" "rng_pos w1 = rng_pos w + 2 * nat (n * n)"
      "mallocs w1 = mallocs w + 3" "frees w1 = frees w + 3"
    using size_iter_total[of n runs env out w] Cons.prems assms(2,3) by auto
  obtain w' where l: "size_loop env out runs ns w1 = Inr w'"
      "rng_seed w' = rng_seed w1" "rng_pos w' = rng_pos w1 + draws_for ns"
      "mallocs w' = mallocs w1 + 3 * length ns" "frees w' = frees w1 + 3 * length ns"
    using Cons.IH[of w1] Cons.prems by auto
  show ?case
    using i l by (simp add: draws_for_def)
qed

lemma write_header_total:
  assumes "files w out \<noteq> None \<or> can_append env out"
  shows "\<exists>w1. write_header_if_needed env out w = Inr w1 \<and>
     rng_seed w1 = rng_seed w \<and> rng_pos w1 = rng_pos w \<and>
     mallocs w1 = mallocs w \<and> frees w1 = frees w"
  using assms by (auto simp: write_header_if_needed_def fappend_def split: option.splits)

lemma sweep_total:
  assumes "\<forall>n \<in> set (cfg_sizes cfg). n * n \<le> INT_MAX \<and> (\<forall>k. malloc_ok env k (malloc_bytes n))"
    and "cfg_runs cfg < INT_MAX"
    and "files w (cfg_out cfg) \<noteq> None \<or> can_append env (cfg_out cfg)"
    and "1 \<le> cfg_runs cfg \<longrightarrow> can_append env (cfg_out cfg)"
  shows "\<exists>w'. sweep env cfg w = Inr (0, w') \<and>
     rng_seed w' = cfg_seed cfg \<and> rng_pos w' = draws_for (cfg_sizes cfg) \<and>
     mallocs w' = mallocs w + 3 * length (cfg_sizes cfg) \<and>
     frees w' = frees w + 3 * length (cfg_sizes cfg)"
proof -
  have "files (srand (cfg_seed cfg) w) (cfg_out cfg) \<noteq> None \<or> can_append env (cfg_out cfg)"
    using assms(3) by (simp add: srand_def)
  from write_header_total[OF this]
  obtain w1 where h: "write_header_if_needed env (cfg_out cfg) (srand (cfg_seed cfg) w) = Inr w1"
      "rng_seed w1 = cfg_seed cfg" "rng_pos w1 = 0" "mallocs w1 = mallocs w" "frees w1 = frees w"
    by (auto simp: srand_def)
  obtain w' where l: "size_loop env (cfg_out cfg) (cfg_runs cfg) (cfg_sizes cfg) w1 = Inr w'"
      "rng_seed w' = rng_seed w1" "rng_pos w' = rng_pos w1 + draws_for (cfg_sizes cfg)"
      "mallocs w' = mallocs w1 + 3 * length (cfg_sizes cfg)"
      "frees w' = frees w1 + 3 * length (cfg_sizes cfg)"
    using size_loop_total[OF assms(1,2,4), of w1] by auto
  have "sweep env cfg w = Inr (0, w')"
    by (simp add: sweep_def h(1) l(1) on_ok_Inr)
  then show ?thesis
    using h l by simp
qed

subsection \<open>Counting lines\<close>








lemma line_count_HEADER: "line_count HEADER = 1"
  by (simp add: HEADER_def line_count_def newline_def)

subsection \<open>The text of a record\<close>









text \<open>
  Claim C6. On a file that exists, \<open>write_header_if_needed\<close> changes nothing, so that
  calling it twice leaves the state that calling it once leaves. More generally, a
  second call after any call that returned changes nothing.
\<close>

theorem write_header_idempotent:
  "(files w path = Some old \<longrightarrow>
      write_header_if_needed env path w = Inr w \<and>
      on_ok (write_header_if_needed env path w) (write_header_if_needed env path) = Inr w) \<and>
   (write_header_if_needed env path w = Inr w1 \<longrightarrow>
      write_header_if_needed env path w1 = Inr w1)"
proof -
  have a: "write_header_if_needed env path w = Inr w" if "files w path = Some old"
    using that by (simp add: write_header_if_needed_def)
  have b: "write_header_if_needed env path w1 = Inr w1"
    if h: "write_header_if_needed env path w = Inr w1"
  proof -
    have "files w1 path \<noteq> None"
      using write_header_cases[OF h] by simp
    then show ?thesis
      by (auto simp: write_header_if_needed_def)
  qed
  show ?thesis
    using a b by (simp add: on_ok_Inr)
qed

theorem write_header_idempotent_witness:
  "write_header_if_needed demo_env ''out.csv''
     (demo_world\<lparr>files := [''out.csv'' \<mapsto> HEADER @ ''30/10/09/15;C;4;1;1.000;50.0;2.00'' @ [newline]]\<rparr>) =
   Inr (demo_world\<lparr>files := [''out.csv'' \<mapsto> HEADER @ ''30/10/09/15;C;4;1;1.000;50.0;2.00'' @ [newline]]\<rparr>) \<and>
   on_ok (write_header_if_needed demo_env ''out.csv''
     (demo_world\<lparr>files := [''out.csv'' \<mapsto> HEADER @ ''30/10/09/15;C;4;1;1.000;50.0;2.00'' @ [newline]]\<rparr>))
     (write_header_if_needed demo_env ''out.csv'') =
   Inr (demo_world\<lparr>files := [''out.csv'' \<mapsto> HEADER @ ''30/10/09/15;C;4;1;1.000;50.0;2.00'' @ [newline]]\<rparr>)"
proof -
  let ?old = "HEADER @ ''30/10/09/15;C;4;1;1.000;50.0;2.00'' @ [newline]"
  let ?w = "demo_world\<lparr>files := [''out.csv'' \<mapsto> ?old]\<rparr>"
  have e: "files ?w ''out.csv'' = Some ?old"
    by simp
  show ?thesis
    using write_header_idempotent[of ?w "''out.csv''" ?old demo_env ?w] e by blast
qed

text \<open>
  Claim C9. \<open>write_header_if_needed\<close> leaves the state as it is when the file exists,
  and writes the header when the file does not exist. When the file exists and is
  empty, the file of a sweep that returns holds the records only: no header precedes
  them.
\<close>

theorem header_only_when_absent:
  "(files w path = Some old \<longrightarrow> write_header_if_needed env path w = Inr w) \<and>
   (files w path = None \<and> can_append env path \<longrightarrow>
      write_header_if_needed env path w = Inr (w\<lparr>files := (files w)(path \<mapsto> HEADER)\<rparr>)) \<and>
   (files w (cfg_out (configure argv)) = Some [] \<and> main env argv w = Inr (st, w') \<longrightarrow>
      files w' (cfg_out (configure argv)) =
        Some (records_text env (kernel_calls w)
                (sweep_order (cfg_sizes (configure argv)) (cfg_runs (configure argv)))))"
proof -
  have c: "files w' (cfg_out (configure argv)) =
        Some (records_text env (kernel_calls w)
                (sweep_order (cfg_sizes (configure argv)) (cfg_runs (configure argv))))"
    if "files w (cfg_out (configure argv)) = Some []" "main env argv w = Inr (st, w')"
    using sweep_partial[of env "configure argv" w st w'] that by (simp add: main_def)
  show ?thesis
    using c by (simp add: write_header_if_needed_def fappend_def)
qed

lemma one_cfg:
  "configure [''benchmark'', ''2'', ''1'', ''out.csv''] =
     \<lparr>cfg_sizes = [2], cfg_runs = 1, cfg_out = ''out.csv'', cfg_seed = 27\<rparr>"
  by code_simp

theorem header_only_when_absent_witness:
  "write_header_if_needed demo_env ''out.csv'' (demo_world\<lparr>files := [''out.csv'' \<mapsto> []]\<rparr>) =
     Inr (demo_world\<lparr>files := [''out.csv'' \<mapsto> []]\<rparr>) \<and>
   write_header_if_needed demo_env ''out.csv'' demo_world =
     Inr (demo_world\<lparr>files := [''out.csv'' \<mapsto> HEADER]\<rparr>) \<and>
   (\<exists>st w'. main demo_env [''benchmark'', ''2'', ''1'', ''out.csv'']
               (demo_world\<lparr>files := [''out.csv'' \<mapsto> []]\<rparr>) = Inr (st, w') \<and>
      files w' ''out.csv'' = Some (csv_line ''30/10/09/15'' ''C'' 2 1 ''1.000;50.0;2.00''))"
proof -
  let ?w = "demo_world\<lparr>files := [''out.csv'' \<mapsto> []]\<rparr>"
  let ?cfg = "\<lparr>cfg_sizes = [2], cfg_runs = 1, cfg_out = ''out.csv'', cfg_seed = 27\<rparr>"
  have "\<exists>w'. sweep demo_env ?cfg ?w = Inr (0, w') \<and>
     rng_seed w' = cfg_seed ?cfg \<and> rng_pos w' = draws_for (cfg_sizes ?cfg) \<and>
     mallocs w' = mallocs ?w + 3 * length (cfg_sizes ?cfg) \<and>
     frees w' = frees ?w + 3 * length (cfg_sizes ?cfg)"
    by (rule sweep_total) (simp_all add: INT_MAX_def demo_env_def)
  then obtain w' where m: "main demo_env [''benchmark'', ''2'', ''1'', ''out.csv''] ?w = Inr (0, w')"
    by (auto simp: main_def one_cfg)
  have e: "files ?w ''out.csv'' = Some []" "can_append demo_env ''out.csv''"
      "files demo_world ''out.csv'' = None"
    by (simp_all add: demo_env_def demo_world_def)
  have k: "kernel_calls ?w = 0" "local_time_id demo_env = ''30/10/09/15''"
     "metric_text demo_env 0 = ''1.000;50.0;2.00''"
    by (simp_all add: demo_world_def demo_env_def)
  have o: "sweep_order [2] 1 = [(2, 1)]"
    by (simp add: sweep_order_def upto_rec1)
  have r: "records_text demo_env 0 [(2, 1)] = csv_line ''30/10/09/15'' ''C'' 2 1 ''1.000;50.0;2.00''"
    by (simp add: records_text_def k language_def)
  have "files w' ''out.csv'' = Some (csv_line ''30/10/09/15'' ''C'' 2 1 ''1.000;50.0;2.00'')"
    using header_only_when_absent[of ?w "''out.csv''" "[]" demo_env
        "[''benchmark'', ''2'', ''1'', ''out.csv'']" 0 w'] m e(1)
    by (simp add: one_cfg k o r)
  moreover have "write_header_if_needed demo_env ''out.csv'' ?w = Inr ?w"
    using header_only_when_absent[of ?w "''out.csv''" "[]" demo_env
        "[''benchmark'', ''2'', ''1'', ''out.csv'']" 0 w'] e(1) by simp
  moreover have "write_header_if_needed demo_env ''out.csv'' demo_world =
     Inr (demo_world\<lparr>files := [''out.csv'' \<mapsto> HEADER]\<rparr>)"
    using header_only_when_absent[of demo_world "''out.csv''" "[]" demo_env
        "[''benchmark'', ''2'', ''1'', ''out.csv'']" 0 w'] e(2,3)
    by (simp add: demo_world_def)
  ultimately show ?thesis
    using m by blast
qed

text \<open>
  Claim C10, as amended. When the run count is 0 or negative, every configured size
  \<open>n\<close> has \<open>n * n \<le> INT_MAX\<close>, every allocation of the buffers of a configured size
  returns a buffer, and the output file exists or can be opened for appending,
  \<open>main\<close> returns the status 0. The file holds the header if it did not exist and is
  unchanged otherwise; the generator has been seeded and \<open>2 * n * n\<close> draws were
  taken for each size; three buffers were allocated and freed for each size; the
  kernel was not invoked and no record was appended.
\<close>

theorem zero_runs_sweep:
  assumes "cfg_runs (configure argv) \<le> 0"
    and "\<forall>n \<in> set (cfg_sizes (configure argv)).
           n * n \<le> INT_MAX \<and> (\<forall>k. malloc_ok env k (malloc_bytes n))"
    and "files w (cfg_out (configure argv)) \<noteq> None \<or> can_append env (cfg_out (configure argv))"
  shows "\<exists>w'. main env argv w = Inr (0, w') \<and>
     files w' = (files w)(cfg_out (configure argv) \<mapsto>
        (case files w (cfg_out (configure argv)) of None \<Rightarrow> HEADER | Some old \<Rightarrow> old)) \<and>
     rng_seed w' = cfg_seed (configure argv) \<and>
     rng_pos w' = draws_for (cfg_sizes (configure argv)) \<and>
     mallocs w' = mallocs w + 3 * length (cfg_sizes (configure argv)) \<and>
     frees w' = frees w + 3 * length (cfg_sizes (configure argv)) \<and>
     kernel_calls w' = kernel_calls w"
proof -
  have r: "cfg_runs (configure argv) < INT_MAX" "1 \<le> cfg_runs (configure argv) \<longrightarrow>
      can_append env (cfg_out (configure argv))"
    using assms(1) by (simp_all add: INT_MAX_def)
  obtain w' where t: "sweep env (configure argv) w = Inr (0, w')"
      "rng_seed w' = cfg_seed (configure argv)"
      "rng_pos w' = draws_for (cfg_sizes (configure argv))"
      "mallocs w' = mallocs w + 3 * length (cfg_sizes (configure argv))"
      "frees w' = frees w + 3 * length (cfg_sizes (configure argv))"
    using sweep_total[OF assms(2) r(1) assms(3) r(2)] by blast
  have z: "nat (cfg_runs (configure argv)) = 0"
    using assms(1) by simp
  have "files w' = (files w)(cfg_out (configure argv) \<mapsto>
        (case files w (cfg_out (configure argv)) of None \<Rightarrow> HEADER | Some old \<Rightarrow> old))"
     "kernel_calls w' = kernel_calls w"
    using sweep_partial[OF t(1)] by (simp_all add: sweep_order_idle[OF assms(1)] records_text_Nil z)
  then show ?thesis
    using t by (auto simp: main_def)
qed

lemma idle_cfg:
  "configure [''benchmark'', ''2,3'', ''0'', ''out.csv''] =
     \<lparr>cfg_sizes = [2, 3], cfg_runs = 0, cfg_out = ''out.csv'', cfg_seed = 27\<rparr>"
  by code_simp

theorem zero_runs_sweep_witness:
  "\<exists>w'. main demo_env [''benchmark'', ''2,3'', ''0'', ''out.csv''] demo_world = Inr (0, w') \<and>
     files w' ''out.csv'' = Some HEADER \<and> rng_seed w' = 27 \<and> rng_pos w' = 26 \<and>
     mallocs w' = 6 \<and> frees w' = 6 \<and> kernel_calls w' = 0"
proof -
  have "\<exists>w'. main demo_env [''benchmark'', ''2,3'', ''0'', ''out.csv''] demo_world = Inr (0, w') \<and>
     files w' = (files demo_world)(''out.csv'' \<mapsto>
        (case files demo_world ''out.csv'' of None \<Rightarrow> HEADER | Some old \<Rightarrow> old)) \<and>
     rng_seed w' = 27 \<and> rng_pos w' = draws_for [2, 3] \<and>
     mallocs w' = mallocs demo_world + 3 * length [2, 3 :: int] \<and>
     frees w' = frees demo_world + 3 * length [2, 3 :: int] \<and>
     kernel_calls w' = kernel_calls demo_world"
    using zero_runs_sweep[of "[''benchmark'', ''2,3'', ''0'', ''out.csv'']" demo_env demo_world]
    by (simp add: idle_cfg INT_MAX_def demo_env_def)
  then obtain w' where "main demo_env [''benchmark'', ''2,3'', ''0'', ''out.csv''] demo_world = Inr (0, w')"
     "files w' ''out.csv'' = Some HEADER" "rng_seed w' = 27" "rng_pos w' = 26"
     "mallocs w' = 6" "frees w' = 6" "kernel_calls w' = 0"
    by (auto simp: demo_world_def draws_for_def)
  then show ?thesis by blast
qed

lemma fill_loop_overflow: "INT_MAX < n * n \<Longrightarrow> fill_loop env n i A B w = Inl SignedOverflow"
  by (subst fill_loop.simps) (simp add: int_mul_def in_int_def)

lemma size_iter_overflow: "INT_MAX < n * n \<Longrightarrow> size_iter env out runs n w = Inl SignedOverflow"
  by (simp add: size_iter_def Let_def fill_loop_overflow on_ok_Inl)

lemma fill_loop_null:
  "0 < n * n \<Longrightarrow> n * n \<le> INT_MAX \<Longrightarrow> fill_loop env n 0 [] B w = Inl OutOfBounds"
  using int_mul_square[of n]
  by (subst fill_loop.simps) (simp add: fill_body_def rand_def store_def on_ok_Inl)

lemma size_iter_null:
  assumes "0 < n * n" "n * n \<le> INT_MAX" "\<not> malloc_ok env (mallocs w) (malloc_bytes n)"
  shows "size_iter env out runs n w = Inl OutOfBounds"
  using assms by (simp add: size_iter_def Let_def malloc_def fill_loop_null on_ok_Inl)

lemma big_cfg:
  "configure [''benchmark'', ''50000'', ''0''] =
     \<lparr>cfg_sizes = [50000], cfg_runs = 0, cfg_out = ''results_raw.csv'', cfg_seed = 27\<rparr>"
  by code_simp

lemma small_cfg:
  "configure [''benchmark'', ''2'', ''0''] =
     \<lparr>cfg_sizes = [2], cfg_runs = 0, cfg_out = ''results_raw.csv'', cfg_seed = 27\<rparr>"
  by code_simp

text \<open>
  The claim as stated, for every configured size, fails at the size 50000 with zero
  runs: the bound \<open>n * n\<close> of the filling loop is not an \<open>int\<close>. It also fails at the
  size 2 with zero runs when the first allocation returns \<open>NULL\<close>: the first store of
  the filling loop goes through it.
\<close>

theorem zero_runs_sweep_counterexample:
  "main demo_env [''benchmark'', ''50000'', ''0''] demo_world = Inl SignedOverflow \<and>
   main (demo_env\<lparr>malloc_ok := (\<lambda>k b. False)\<rparr>) [''benchmark'', ''2'', ''0''] demo_world =
     Inl OutOfBounds"
proof -
  have a: "main env [''benchmark'', ''50000'', ''0''] demo_world = Inl SignedOverflow"
    if "can_append env ''results_raw.csv''" for env :: "int env"
  proof -
    have "files (srand 27 demo_world) ''results_raw.csv'' \<noteq> None \<or>
          can_append env ''results_raw.csv''"
      using that by simp
    from write_header_total[OF this]
    obtain w1 where h: "write_header_if_needed env ''results_raw.csv'' (srand 27 demo_world) = Inr w1"
      by blast
    have "size_iter env ''results_raw.csv'' 0 50000 w1 = Inl SignedOverflow"
      by (rule size_iter_overflow) (simp add: INT_MAX_def)
    then have "size_loop env ''results_raw.csv'' 0 [50000] w1 = Inl SignedOverflow"
      by simp
    then show ?thesis
      by (simp add: main_def big_cfg sweep_def h on_ok_Inr on_ok_Inl)
  qed
  have b: "main env [''benchmark'', ''2'', ''0''] demo_world = Inl OutOfBounds"
    if "can_append env ''results_raw.csv''" "\<forall>k b. \<not> malloc_ok env k b" for env :: "int env"
  proof -
    have "files (srand 27 demo_world) ''results_raw.csv'' \<noteq> None \<or>
          can_append env ''results_raw.csv''"
      using that by simp
    from write_header_total[OF this]
    obtain w1 where h: "write_header_if_needed env ''results_raw.csv'' (srand 27 demo_world) = Inr w1"
      by blast
    have "size_iter env ''results_raw.csv'' 0 2 w1 = Inl OutOfBounds"
      using that(2) by (intro size_iter_null) (simp_all add: INT_MAX_def)
    then have "size_loop env ''results_raw.csv'' 0 [2] w1 = Inl OutOfBounds"
      by simp
    then show ?thesis
      by (simp add: main_def small_cfg sweep_def h on_ok_Inr on_ok_Inl)
  qed
  show ?thesis
    using a[of demo_env] b[of "demo_env\<lparr>malloc_ok := (\<lambda>k b. False)\<rparr>"]
    by (simp add: demo_env_def)
qed

end
